theory Spec2Isabelle
  imports Main "HOL-Library.Sublist"
begin

section \<open>Go library functions the importer calls\<close>

text \<open>
  Go strings are byte sequences; they are modelled as \<^typ>\<open>string\<close>, one \<^typ>\<open>char\<close> per
  byte. The functions of this section are Go's standard library (packages \<^verbatim>\<open>strings\<close>,
  \<^verbatim>\<open>path/filepath\<close> on Unix, \<^verbatim>\<open>unicode/utf8\<close>), written out so that the importer's
  own functions can be embedded as they are.
\<close>

subsection \<open>strings\<close>

text \<open>\<^verbatim>\<open>len(s) >= len(suffix) && s[len(s)-len(suffix):] == suffix\<close>\<close>

definition strings_HasSuffix :: "string \<Rightarrow> string \<Rightarrow> bool" where
  "strings_HasSuffix s sfx \<longleftrightarrow>
     length sfx \<le> length s \<and> drop (length s - length sfx) s = sfx"

text \<open>\<^verbatim>\<open>len(s) >= len(prefix) && s[0:len(prefix)] == prefix\<close>\<close>

definition strings_HasPrefix :: "string \<Rightarrow> string \<Rightarrow> bool" where
  "strings_HasPrefix s pfx \<longleftrightarrow> length pfx \<le> length s \<and> take (length pfx) s = pfx"

subsection \<open>path/filepath\<close>

text \<open>The elements of a path string between separators, empty ones included.\<close>

fun split_sep :: "string \<Rightarrow> string list" where
  "split_sep [] = [[]]"
| "split_sep (c # cs) =
     (if c = CHR ''/'' then [] # split_sep cs
      else (case split_sep cs of [] \<Rightarrow> [[c]] | e # es \<Rightarrow> (c # e) # es))"

fun join_sep :: "string list \<Rightarrow> string" where
  "join_sep [] = []"
| "join_sep [e] = e"
| "join_sep (e # f # es) = e @ CHR ''/'' # join_sep (f # es)"

definition is_rooted :: "string \<Rightarrow> bool" where
  "is_rooted p \<longleftrightarrow> (case p of [] \<Rightarrow> False | c # _ \<Rightarrow> c = CHR ''/'')"

text \<open>
  One step of \<^verbatim>\<open>filepath.Clean\<close>, on the elements written so far: an empty element and
  \<^verbatim>\<open>.\<close> are dropped; \<^verbatim>\<open>..\<close> removes the element before it when there is one that is not
  itself \<^verbatim>\<open>..\<close>, is dropped at the root of a rooted path, and is kept otherwise; any other
  element is appended.
\<close>

definition clean_elem :: "bool \<Rightarrow> string list \<Rightarrow> string \<Rightarrow> string list" where
  "clean_elem rooted st e =
     (if e = [] \<or> e = ''.'' then st
      else if e = ''..'' then
        (if st \<noteq> [] \<and> last st \<noteq> ''..'' then butlast st
         else if rooted then st
         else st @ [''..''])
      else st @ [e])"

definition path_elems :: "string \<Rightarrow> string list" where
  "path_elems p = foldl (clean_elem (is_rooted p)) [] (split_sep p)"

definition render :: "bool \<Rightarrow> string list \<Rightarrow> string" where
  "render rooted st =
     (if rooted then CHR ''/'' # join_sep st
      else if st = [] then ''.'' else join_sep st)"

definition filepath_Clean :: "string \<Rightarrow> string" where
  "filepath_Clean p = render (is_rooted p) (path_elems p)"

text \<open>
  \<^verbatim>\<open>filepath.Join\<close>: leading empty elements are skipped, the rest is joined with
  separators and cleaned; with no non-empty element the result is the empty string.
\<close>

definition filepath_Join :: "string list \<Rightarrow> string" where
  "filepath_Join elem =
     (case dropWhile (\<lambda>e. e = []) elem of
        [] \<Rightarrow> []
      | es \<Rightarrow> filepath_Clean (join_sep es))"

text \<open>\<^verbatim>\<open>filepath.Split\<close>: the path up to and including its last separator, and the rest.\<close>

definition filepath_Split :: "string \<Rightarrow> string \<times> string" where
  "filepath_Split p =
     (let n = length (takeWhile (\<lambda>c. c \<noteq> CHR ''/'') (rev p))
      in (take (length p - n) p, drop (length p - n) p))"

definition filepath_Dir :: "string \<Rightarrow> string" where
  "filepath_Dir p = filepath_Clean (fst (filepath_Split p))"

text \<open>
  \<^verbatim>\<open>filepath.Base\<close>: \<^verbatim>\<open>.\<close> for the empty path; otherwise trailing separators are
  stripped and the last element is returned, \<^verbatim>\<open>/\<close> when nothing is left.
\<close>

definition filepath_Base :: "string \<Rightarrow> string" where
  "filepath_Base p =
     (if p = [] then ''.''
      else
        (let q = rev (dropWhile (\<lambda>c. c = CHR ''/'') (rev p));
             b = rev (takeWhile (\<lambda>c. c \<noteq> CHR ''/'') (rev q))
         in if b = [] then ''/'' else b))"

subsection \<open>unicode/utf8\<close>

text \<open>
  \<^verbatim>\<open>utf8.ValidString\<close>: every byte below \<^verbatim>\<open>0x80\<close> stands alone; a leading byte
  \<^verbatim>\<open>0xC2..0xDF\<close>, \<^verbatim>\<open>0xE0..0xEF\<close>, \<^verbatim>\<open>0xF0..0xF4\<close> takes one, two, three continuation bytes
  \<^verbatim>\<open>0x80..0xBF\<close>, where the first of them is restricted after \<^verbatim>\<open>0xE0\<close>, \<^verbatim>\<open>0xED\<close>,
  \<^verbatim>\<open>0xF0\<close> and \<^verbatim>\<open>0xF4\<close> (no overlong form, no surrogate, nothing above \<^verbatim>\<open>U+10FFFF\<close>);
  any other byte is invalid.
\<close>

definition locb :: nat where "locb = 0x80"

definition hicb :: nat where "hicb = 0xBF"

definition accept_lo :: "nat \<Rightarrow> nat" where
  "accept_lo b = (if b = 0xE0 then 0xA0 else if b = 0xF0 then 0x90 else locb)"

definition accept_hi :: "nat \<Rightarrow> nat" where
  "accept_hi b = (if b = 0xED then 0x9F else if b = 0xF4 then 0x8F else hicb)"

fun valid_bytes :: "nat list \<Rightarrow> bool" where
  "valid_bytes [] = True"
| "valid_bytes (b # bs) =
     (if b < 0x80 then valid_bytes bs
      else if 0xC2 \<le> b \<and> b \<le> 0xDF then
        (case bs of
           c1 # r \<Rightarrow> accept_lo b \<le> c1 \<and> c1 \<le> accept_hi b \<and> valid_bytes r
         | _ \<Rightarrow> False)
      else if 0xE0 \<le> b \<and> b \<le> 0xEF then
        (case bs of
           c1 # c2 # r \<Rightarrow>
             accept_lo b \<le> c1 \<and> c1 \<le> accept_hi b \<and> locb \<le> c2 \<and> c2 \<le> hicb \<and> valid_bytes r
         | _ \<Rightarrow> False)
      else if 0xF0 \<le> b \<and> b \<le> 0xF4 then
        (case bs of
           c1 # c2 # c3 # r \<Rightarrow>
             accept_lo b \<le> c1 \<and> c1 \<le> accept_hi b \<and> locb \<le> c2 \<and> c2 \<le> hicb
             \<and> locb \<le> c3 \<and> c3 \<le> hicb \<and> valid_bytes r
         | _ \<Rightarrow> False)
      else False)"

definition utf8_ValidString :: "string \<Rightarrow> bool" where
  "utf8_ValidString s = valid_bytes (map of_char s)"

text \<open>
  \<^verbatim>\<open>utf8.DecodeRuneInString\<close>, as far as the size it returns goes: the number of bytes
  of the encoding that starts the string, by the same table. The width is 0 when the
  string is empty or no valid encoding starts it; on such a string that is not empty the
  function returns \<^verbatim>\<open>RuneError\<close> with size 1.
\<close>

definition rune_width :: "nat list \<Rightarrow> nat" where
  "rune_width s =
     (case s of
        [] \<Rightarrow> 0
      | b # bs \<Rightarrow>
          if b < 0x80 then 1
          else if 0xC2 \<le> b \<and> b \<le> 0xDF then
            (case bs of
               c1 # r \<Rightarrow> if accept_lo b \<le> c1 \<and> c1 \<le> accept_hi b then 2 else 0
             | _ \<Rightarrow> 0)
          else if 0xE0 \<le> b \<and> b \<le> 0xEF then
            (case bs of
               c1 # c2 # r \<Rightarrow>
                 if accept_lo b \<le> c1 \<and> c1 \<le> accept_hi b \<and> locb \<le> c2 \<and> c2 \<le> hicb
                 then 3 else 0
             | _ \<Rightarrow> 0)
          else if 0xF0 \<le> b \<and> b \<le> 0xF4 then
            (case bs of
               c1 # c2 # c3 # r \<Rightarrow>
                 if accept_lo b \<le> c1 \<and> c1 \<le> accept_hi b \<and> locb \<le> c2 \<and> c2 \<le> hicb
                    \<and> locb \<le> c3 \<and> c3 \<le> hicb
                 then 4 else 0
             | _ \<Rightarrow> 0)
          else 0)"

section \<open>The file system\<close>

text \<open>
  A path string names the file at its cleaned form: whether it is rooted, and its elements.
  The file system is an association list from such keys to nodes, in directory order. The
  root (and the working directory of a relative path) has the empty element list and is
  always a directory. Symbolic links and permissions are not modelled; a system call can
  still fail for a reason outside the model, which the \<open>faults\<close> predicate decides.
\<close>

datatype content = Bytes string | Shard "string list"

datatype node = File content | Dir

type_synonym path = "bool \<times> string list"

type_synonym filesys = "(path \<times> node) list"

datatype errno = ENOENT | EEXIST | ENOTDIR | EISDIR | ENOTEMPTY | EINVAL | EIO

datatype syscall =
  SysOpen | SysReaddirnames | SysStat | SysRemove | SysRemoveAll | SysRename
  | SysMkdirAll | SysCreate | SysCopy | SysTempFile

type_synonym faults = "syscall \<Rightarrow> string \<Rightarrow> bool"

definition fs_key :: "string \<Rightarrow> path" where
  "fs_key p = (is_rooted p, path_elems p)"

definition parent :: "path \<Rightarrow> path" where
  "parent k = (fst k, butlast (snd k))"

text \<open>\<open>below k q\<close>: the file \<open>q\<close> lies inside the directory \<open>k\<close>, at any depth.\<close>

definition below :: "path \<Rightarrow> path \<Rightarrow> bool" where
  "below k q \<longleftrightarrow> fst q = fst k \<and> strict_prefix (snd k) (snd q)"

definition node_at :: "filesys \<Rightarrow> path \<Rightarrow> node option" where
  "node_at fs k = (if snd k = [] then Some Dir else map_of fs k)"

fun fs_put :: "path \<Rightarrow> node \<Rightarrow> filesys \<Rightarrow> filesys" where
  "fs_put k n [] = [(k, n)]"
| "fs_put k n ((q, m) # fs) = (if q = k then (k, n) # fs else (q, m) # fs_put k n fs)"

definition has_children :: "filesys \<Rightarrow> path \<Rightarrow> bool" where
  "has_children fs k = list_ex (\<lambda>(q, _). below k q) fs"

text \<open>The names of the entries directly inside directory \<open>k\<close>.\<close>

definition dir_names :: "filesys \<Rightarrow> path \<Rightarrow> string list" where
  "dir_names fs k =
     map (\<lambda>(q, _). last (snd q))
       (filter (\<lambda>(q, _). snd q \<noteq> [] \<and> parent q = k) fs)"

definition os_Stat :: "faults \<Rightarrow> string \<Rightarrow> filesys \<Rightarrow> errno + node" where
  "os_Stat flt p fs =
     (if flt SysStat p then Inl EIO
      else case node_at fs (fs_key p) of None \<Rightarrow> Inl ENOENT | Some n \<Rightarrow> Inr n)"

definition os_IsNotExist :: "errno \<Rightarrow> bool" where
  "os_IsNotExist e \<longleftrightarrow> e = ENOENT"

definition os_Open :: "faults \<Rightarrow> string \<Rightarrow> filesys \<Rightarrow> errno + node" where
  "os_Open flt p fs =
     (if flt SysOpen p then Inl EIO
      else case node_at fs (fs_key p) of None \<Rightarrow> Inl ENOENT | Some n \<Rightarrow> Inr n)"

text \<open>\<^verbatim>\<open>file.Readdirnames(-1)\<close> on the file opened at \<open>p\<close>, which is the node \<open>n\<close>.\<close>

definition Readdirnames :: "faults \<Rightarrow> string \<Rightarrow> node \<Rightarrow> filesys \<Rightarrow> errno + string list" where
  "Readdirnames flt p n fs =
     (if flt SysReaddirnames p then Inl EIO
      else case n of File _ \<Rightarrow> Inl ENOTDIR | Dir \<Rightarrow> Inr (dir_names fs (fs_key p)))"

text \<open>\<^verbatim>\<open>os.Remove\<close>: unlinks a file or removes an empty directory.\<close>

definition os_Remove :: "faults \<Rightarrow> string \<Rightarrow> filesys \<Rightarrow> errno + filesys" where
  "os_Remove flt p fs =
     (let k = fs_key p in
      if flt SysRemove p then Inl EIO
      else case map_of fs k of
        None \<Rightarrow> Inl ENOENT
      | Some n \<Rightarrow>
          if has_children fs k then Inl ENOTEMPTY
          else Inr (filter (\<lambda>(q, _). q \<noteq> k) fs))"

text \<open>
  \<^verbatim>\<open>os.RemoveAll\<close>: removes the path and everything below it; a path that does not exist
  is no error. A call that fails may already have removed part of the subtree: the
  entries that \<open>gone\<close> selects.
\<close>

definition os_RemoveAll ::
  "faults \<Rightarrow> (path \<Rightarrow> bool) \<Rightarrow> string \<Rightarrow> filesys \<Rightarrow> errno option \<times> filesys" where
  "os_RemoveAll flt gone p fs =
     (let k = fs_key p in
      if flt SysRemoveAll p
      then (Some EIO, filter (\<lambda>(q, _). \<not> ((q = k \<or> below k q) \<and> gone q)) fs)
      else (None, filter (\<lambda>(q, _). \<not> (q = k \<or> below k q)) fs))"

text \<open>\<^verbatim>\<open>os.Rename\<close>, with the checks of \<^verbatim>\<open>rename(2)\<close>.\<close>

definition os_Rename :: "faults \<Rightarrow> string \<Rightarrow> string \<Rightarrow> filesys \<Rightarrow> errno + filesys" where
  "os_Rename flt old new fs =
     (let ko = fs_key old; kn = fs_key new in
      if flt SysRename old then Inl EIO
      else case map_of fs ko of
        None \<Rightarrow> Inl ENOENT
      | Some n \<Rightarrow>
          if node_at fs (parent kn) \<noteq> Some Dir then Inl ENOENT
          else if ko = kn then Inr fs
          else (case n of
            File c \<Rightarrow>
              (case map_of fs kn of
                 Some Dir \<Rightarrow> Inl EISDIR
               | _ \<Rightarrow> Inr (filter (\<lambda>(q, _). q \<noteq> ko \<and> q \<noteq> kn) fs @ [(kn, File c)]))
          | Dir \<Rightarrow>
              (case map_of fs kn of
                 Some (File _) \<Rightarrow> Inl ENOTDIR
               | _ \<Rightarrow>
                   if below ko kn then Inl EINVAL
                   else if has_children fs kn then Inl ENOTEMPTY
                   else Inr (map (\<lambda>(q, m).
                               if q = ko \<or> below ko q
                               then ((fst kn, snd kn @ drop (length (snd ko)) (snd q)), m)
                               else (q, m))
                             (filter (\<lambda>(q, _). q \<noteq> kn) fs)))))"

text \<open>\<^verbatim>\<open>os.MkdirAll\<close>: creates the directory and every missing ancestor.\<close>

fun mkdir_all :: "bool \<Rightarrow> string list \<Rightarrow> string list \<Rightarrow> filesys \<Rightarrow> errno + filesys" where
  "mkdir_all r pre [] fs = Inr fs"
| "mkdir_all r pre (c # cs) fs =
     (case map_of fs (r, pre @ [c]) of
        Some (File _) \<Rightarrow> Inl ENOTDIR
      | Some Dir \<Rightarrow> mkdir_all r (pre @ [c]) cs fs
      | None \<Rightarrow> mkdir_all r (pre @ [c]) cs (fs @ [((r, pre @ [c]), Dir)]))"

definition os_MkdirAll :: "faults \<Rightarrow> string \<Rightarrow> filesys \<Rightarrow> errno + filesys" where
  "os_MkdirAll flt p fs =
     (if flt SysMkdirAll p then Inl EIO
      else mkdir_all (fst (fs_key p)) [] (snd (fs_key p)) fs)"

text \<open>
  \<^verbatim>\<open>os.Create\<close>: creates the file or truncates it. With \<open>excl\<close> (the \<^verbatim>\<open>O_EXCL\<close> of
  \<^verbatim>\<open>ioutil.TempFile\<close>) an existing entry is an error.
\<close>

definition open_create :: "bool \<Rightarrow> string \<Rightarrow> filesys \<Rightarrow> errno + filesys" where
  "open_create excl p fs =
     (let k = fs_key p in
      if node_at fs (parent k) \<noteq> Some Dir then Inl ENOENT
      else case node_at fs k of
        Some Dir \<Rightarrow> (if excl then Inl EEXIST else Inl EISDIR)
      | Some (File _) \<Rightarrow> (if excl then Inl EEXIST else Inr (fs_put k (File (Bytes [])) fs))
      | None \<Rightarrow> Inr (fs_put k (File (Bytes [])) fs))"

definition os_Create :: "faults \<Rightarrow> string \<Rightarrow> filesys \<Rightarrow> errno + filesys" where
  "os_Create flt p fs = (if flt SysCreate p then Inl EIO else open_create False p fs)"

text \<open>Writing the whole content of an open file.\<close>

definition write_file :: "string \<Rightarrow> content \<Rightarrow> filesys \<Rightarrow> filesys" where
  "write_file p c fs = fs_put (fs_key p) (File c) fs"

text \<open>
  \<^verbatim>\<open>ioutil.TempFile(dir, prefix)\<close>: the name is \<open>prefix\<close> followed by the next suffix,
  under \<open>dir\<close>; an existing name is retried with the next suffix, any other error is
  returned. A suffix is \<^verbatim>\<open>strconv.Itoa(int(1e9 + r%1e9))[1:]\<close>, the nine decimal digits of
  the random number \<open>r\<close>. \<open>rs\<close> is the sequence of random numbers that the call would
  draw, at most 10000 of them.
\<close>

definition digit :: "nat \<Rightarrow> char" where
  "digit d = ''0123456789'' ! (d mod 10)"

fun digits :: "nat \<Rightarrow> nat \<Rightarrow> string" where
  "digits 0 r = []"
| "digits (Suc n) r = digits n (r div 10) @ [digit r]"

definition nextSuffix :: "nat \<Rightarrow> string" where
  "nextSuffix r = digits 9 r"

fun temp_file :: "string \<Rightarrow> string \<Rightarrow> nat list \<Rightarrow> filesys \<Rightarrow> errno + (string \<times> filesys)" where
  "temp_file dir pfx [] fs = Inl EEXIST"
| "temp_file dir pfx (r # rs) fs =
     (let name = filepath_Join [dir, pfx @ nextSuffix r] in
      case open_create True name fs of
        Inl e \<Rightarrow> (if e = EEXIST then temp_file dir pfx rs fs else Inl e)
      | Inr fs' \<Rightarrow> Inr (name, fs'))"

definition ioutil_TempFile ::
  "faults \<Rightarrow> string \<Rightarrow> nat list \<Rightarrow> string \<Rightarrow> string \<Rightarrow> filesys \<Rightarrow> errno + (string \<times> filesys)" where
  "ioutil_TempFile flt os_TempDir rs dir pfx fs =
     (if flt SysTempFile dir then Inl EIO
      else temp_file (if dir = [] then os_TempDir else dir) pfx rs fs)"

text \<open>
  A name that a directory entry can have: not empty, without a separator, and neither
  \<^verbatim>\<open>.\<close> nor \<^verbatim>\<open>..\<close>. In a well-formed file system every element of every key is one.
\<close>

definition valid_name :: "string \<Rightarrow> bool" where
  "valid_name n \<longleftrightarrow> n \<noteq> [] \<and> CHR ''/'' \<notin> set n \<and> n \<noteq> ''.'' \<and> n \<noteq> ''..''"

definition wf_fs :: "filesys \<Rightarrow> bool" where
  "wf_fs f = list_all (\<lambda>(k, _). list_all valid_name (snd k)) f"

text \<open>
  The element lists that \<^verbatim>\<open>filepath.Clean\<close> produces: no empty element, no \<^verbatim>\<open>.\<close>, no
  separator inside an element, and \<^verbatim>\<open>..\<close> only at the front of a path that is not rooted.
\<close>

definition normal :: "bool \<Rightarrow> string list \<Rightarrow> bool" where
  "normal r st \<longleftrightarrow>
     (\<forall>e\<in>set st. e \<noteq> [] \<and> e \<noteq> ''.'' \<and> CHR ''/'' \<notin> set e)
     \<and> (\<forall>ys zs. st = ys @ ''..'' # zs \<longrightarrow> \<not> r \<and> set ys \<subseteq> {''..''})"

section \<open>The importer: process state and configuration\<close>

text \<open>
  What the process writes to a client, or to its log when it ends there: a format string
  and its arguments, as given to \<^verbatim>\<open>fmt\<close>. The other lines of the log (\<^verbatim>\<open>log.Printf\<close>,
  also those that the flag \<^verbatim>\<open>debug_skip\<close> turns on) are not part of the state.
\<close>

datatype arg = S string | E errno

datatype message = Msg string "arg list"

text \<open>
  \<^verbatim>\<open>log.Fatal\<close> ends the process; a method called on a nil interface and a slice
  expression out of range panic.
\<close>

datatype error = Fatal message | NilDereference | SliceBounds

datatype json = JString string | JArray "json list" | JObject "(string \<times> json) list"

text \<open>
  A response body: text written as it is, a line written by \<^verbatim>\<open>http.Error\<close> (the text
  and a newline), a JSON document, or nothing.
\<close>

datatype body = Text message | Line message | Document json | Empty

record response =
  status :: nat
  body :: body

definition http_Error :: "message \<Rightarrow> nat \<Rightarrow> response" where
  "http_Error m code = \<lparr>status = code, body = Line m\<rparr>"

definition StatusOK :: nat where
  "StatusOK = 200"

definition StatusInternalServerError :: nat where
  "StatusInternalServerError = 500"

text \<open>
  The flags, and what the process takes from outside: which system calls fail, the
  random numbers \<^verbatim>\<open>ioutil.TempFile\<close> draws, the error (if any) with which the backend answers
  \<^verbatim>\<open>ReplaceIndex\<close>.
  The filter \<^verbatim>\<open>ignored\<close> and the index builder's \<^verbatim>\<open>AddFile\<close> are functions of the
  repository that the importer calls; they are parameters here.
\<close>

datatype filemode = ModeRegular | ModeDir | ModeSymlink | ModeOther

record fileinfo =
  Mode :: filemode
  Size :: nat

definition IsRegular :: "filemode \<Rightarrow> bool" where
  "IsRegular m \<longleftrightarrow> m = ModeRegular"

definition IsDir :: "fileinfo \<Rightarrow> bool" where
  "IsDir i \<longleftrightarrow> Mode i = ModeDir"

record env =
  unpackedPath :: string
  tmpdir :: string
  cpuProfile :: string
  debugSkip :: bool
  faults :: faults
  removed_on_failure :: "path \<Rightarrow> bool"
  temp_random :: "nat list"
  os_TempDir :: string
  ReplaceIndex :: "string \<Rightarrow> string option"
  cpu_profile_data :: string
  ignored :: "fileinfo option \<Rightarrow> string \<Rightarrow> string \<Rightarrow> string option"
  AddFile_fails :: "string \<Rightarrow> string \<Rightarrow> string \<Rightarrow> bool"

text \<open>
  The state the process changes: the file system, its counters and gauge, and the
  \<^verbatim>\<open>ReplaceIndex\<close> calls it has sent to the index backend (their \<^verbatim>\<open>ReplacementPath\<close>).
\<close>

record pstate =
  fs :: filesys
  successfulGarbageCollects :: nat
  successfulMerges :: nat
  successfulPackageIndexes :: nat
  filesInIndex :: nat
  rpcs :: "string list"

section \<open>Listing and garbage collection\<close>

definition packageNames :: "env \<Rightarrow> filesys \<Rightarrow> error + string list" where
  "packageNames en f =
     (case os_Open (faults en) (unpackedPath en) f of
        Inl err \<Rightarrow>
          (if \<not> os_IsNotExist err then Inl (Fatal (Msg ''%v'' [E err])) else Inr [])
      | Inr file \<Rightarrow>
          (case Readdirnames (faults en) (unpackedPath en) file f of
             Inl err \<Rightarrow> Inl (Fatal (Msg ''%v'' [E err]))
           | Inr names \<Rightarrow> Inr names))"

record ListPackageReply =
  Packages :: "string list"

text \<open>
  \<^verbatim>\<open>json.Marshal\<close> writes a string (since Go 1.2) with every byte that is not part of
  a valid UTF-8 encoding replaced by \<^verbatim>\<open>\ufffd\<close>, the replacement character \<^verbatim>\<open>U+FFFD\<close>:
  it goes through the string with \<^verbatim>\<open>utf8.DecodeRuneInString\<close> and replaces the one byte
  for which that returns \<^verbatim>\<open>RuneError\<close> with size 1. Every other character it writes as
  it is, or as an escape that stands for it. A JSON document is given here by what its
  text denotes, and a string of it by its bytes in UTF-8: \<open>json_string s\<close> is the string
  that the text written for the Go string \<open>s\<close> denotes.
\<close>

definition replacement_character :: string where
  "replacement_character = [CHR 0xEF, CHR 0xBF, CHR 0xBD]"

fun json_string :: "string \<Rightarrow> string" where
  "json_string [] = []"
| "json_string (c # cs) =
     (let n = rune_width (map of_char (c # cs)) in
      if n = 0 then replacement_character @ json_string cs
      else c # take (n - 1) cs @ json_string (drop (n - 1) cs))"

text \<open>
  \<^verbatim>\<open>json.Marshal\<close> of a struct with one field, a slice of strings: an object with that
  one member, whose value is an array (the slice is made with \<^verbatim>\<open>make\<close>, it is not
  \<^verbatim>\<open>nil\<close>). It has no error for this type.
\<close>

definition json_Marshal :: "ListPackageReply \<Rightarrow> string + json" where
  "json_Marshal reply =
     Inr (JObject [(''Packages'', JArray (map JString (map json_string (Packages reply))))])"

definition listPackages_loop :: "string list \<Rightarrow> string list" where
  "listPackages_loop names =
     foldl (\<lambda>packages name.
        if strings_HasSuffix name ''.idx'' \<and> name \<noteq> ''full.idx''
        then packages @ [take (length name - length ''.idx'') name]
        else packages) [] names"

definition listPackages :: "env \<Rightarrow> pstate \<Rightarrow> error + response" where
  "listPackages en s =
     (case packageNames en (fs s) of
        Inl e \<Rightarrow> Inl e
      | Inr names \<Rightarrow>
          (let reply = \<lparr>Packages = listPackages_loop names\<rparr> in
           case json_Marshal reply of
             Inl err \<Rightarrow>
               Inr (http_Error (Msg ''Serialization error: %v'' [S err])
                      StatusInternalServerError)
           | Inr jsonReply \<Rightarrow> Inr \<lparr>status = StatusOK, body = Document jsonReply\<rparr>))"

text \<open>The search of \<^verbatim>\<open>garbageCollect\<close> for the package among the names.\<close>

fun gc_found :: "string \<Rightarrow> string list \<Rightarrow> bool" where
  "gc_found pkg [] = False"
| "gc_found pkg (name # names) =
     (if name = pkg \<and> \<not> strings_HasSuffix name ''.idx'' then True
      else gc_found pkg names)"

text \<open>\<open>pkg\<close> is \<^verbatim>\<open>r.FormValue("package")\<close>: empty when the parameter is missing.\<close>

definition garbageCollect :: "env \<Rightarrow> string \<Rightarrow> pstate \<Rightarrow> error + (response \<times> pstate)" where
  "garbageCollect en pkg s =
     (if pkg = [] then
        Inr (http_Error (Msg ''No ?package= provided'' []) StatusInternalServerError, s)
      else case packageNames en (fs s) of
        Inl e \<Rightarrow> Inl e
      | Inr names \<Rightarrow>
          if \<not> gc_found pkg names then
            Inr (http_Error (Msg ''No such package'' []) StatusInternalServerError, s)
          else
            (case os_RemoveAll (faults en) (removed_on_failure en)
                    (filepath_Join [unpackedPath en, pkg]) (fs s) of
               (Some err, fs1) \<Rightarrow>
                 Inr (http_Error (Msg ''Could not garbage collect package %q: %v'' [S pkg, E err])
                        StatusInternalServerError,
                      s\<lparr>fs := fs1\<rparr>)
             | (None, fs1) \<Rightarrow>
                 (case os_Remove (faults en)
                         (filepath_Join [unpackedPath en, pkg @ ''.idx'']) fs1 of
                    Inl err \<Rightarrow>
                      Inr (http_Error
                             (Msg ''Could not garbage collect package index for %q: %v''
                                [S pkg, E err])
                             StatusInternalServerError,
                           s\<lparr>fs := fs1\<rparr>)
                  | Inr fs2 \<Rightarrow>
                      Inr (\<lparr>status = StatusOK, body = Empty\<rparr>,
                           s\<lparr>fs := fs2,
                             successfulGarbageCollects := successfulGarbageCollects s + 1\<rparr>))))"

section \<open>The merge coordinator\<close>

text \<open>
  Modelled from the spec: \<^verbatim>\<open>index.ConcatN\<close> of the index package, which is not among the
  sources. It writes to the output file one shard that holds the entries of all the input
  shards. An input that is no shard contributes nothing.
\<close>

definition shard_entries :: "filesys \<Rightarrow> string \<Rightarrow> string list" where
  "shard_entries f p =
     (case map_of f (fs_key p) of Some (File (Shard es)) \<Rightarrow> es | _ \<Rightarrow> [])"

definition index_ConcatN :: "string \<Rightarrow> string list \<Rightarrow> filesys \<Rightarrow> filesys" where
  "index_ConcatN dst srcs f = write_file dst (Shard (concat (map (shard_entries f) srcs))) f"

definition mergeToShard_loop :: "env \<Rightarrow> string list \<Rightarrow> string list" where
  "mergeToShard_loop en names =
     foldl (\<lambda>indexFiles name.
        if strings_HasSuffix name ''.idx'' \<and> name \<noteq> ''full.idx''
        then indexFiles @ [filepath_Join [unpackedPath en, name]]
        else indexFiles) [] names"

text \<open>
  The deferred \<^verbatim>\<open>pprof.StopCPUProfile\<close> and \<^verbatim>\<open>f.Close\<close>: on return the profile is in
  the file.
\<close>

definition StopCPUProfile :: "env \<Rightarrow> pstate \<Rightarrow> pstate" where
  "StopCPUProfile en s =
     (if cpuProfile en \<noteq> []
      then s\<lparr>fs := write_file (cpuProfile en) (Bytes (cpu_profile_data en)) (fs s)\<rparr>
      else s)"

definition mergeToShard :: "env \<Rightarrow> pstate \<Rightarrow> error + pstate" where
  "mergeToShard en s =
     (case packageNames en (fs s) of
        Inl e \<Rightarrow> Inl e
      | Inr names \<Rightarrow>
          (let indexFiles = mergeToShard_loop en names;
               s1 = s\<lparr>filesInIndex := length indexFiles\<rparr>
           in
           if length indexFiles < 2 then Inr s1
           else case ioutil_TempFile (faults en) (os_TempDir en) (temp_random en)
                       (unpackedPath en) ''newshard'' (fs s1) of
             Inl err \<Rightarrow> Inl (Fatal (Msg ''%v'' [E err]))
           | Inr (tmpIndexPath, fs1) \<Rightarrow>
               (case (if cpuProfile en \<noteq> []
                      then os_Create (faults en) (cpuProfile en) fs1 else Inr fs1) of
                  Inl err \<Rightarrow> Inl (Fatal (Msg ''%v'' [E err]))
                | Inr fs2 \<Rightarrow>
                    (let fs3 = index_ConcatN tmpIndexPath indexFiles fs2;
                         fullIdxPath = filepath_Join [unpackedPath en, ''full.idx'']
                     in
                     if (case os_Stat (faults en) fullIdxPath fs3 of
                           Inl err \<Rightarrow> os_IsNotExist err | Inr _ \<Rightarrow> False)
                     then
                       (case os_Rename (faults en) tmpIndexPath fullIdxPath fs3 of
                          Inl err \<Rightarrow> Inl (Fatal (Msg ''%v'' [E err]))
                        | Inr fs4 \<Rightarrow> Inr (StopCPUProfile en (s1\<lparr>fs := fs4\<rparr>)))
                     else
                       (let s2 = s1\<lparr>fs := fs3, successfulMerges := successfulMerges s1 + 1\<rparr>
                        in
                        case ReplaceIndex en (filepath_Base tmpIndexPath) of
                          Some err \<Rightarrow>
                            Inl (Fatal (Msg ''dcs-index-backend ReplaceIndex failed: %v'' [S err]))
                        | None \<Rightarrow>
                            Inr (StopCPUProfile en
                                   (s2\<lparr>rpcs := rpcs s2 @ [filepath_Base tmpIndexPath]\<rparr>)))))))"

section \<open>The merge gate\<close>

text \<open>
  \<^verbatim>\<open>mergeQueue\<close> is an unbuffered channel, and one goroutine, started by \<^verbatim>\<open>main\<close>,
  receives from it, in \<^verbatim>\<open>for _ = range mergeQueue { mergeToShard() }\<close>. A send in a
  \<^verbatim>\<open>select\<close> with a \<^verbatim>\<open>default\<close> case goes through exactly when that goroutine is blocked
  in the receive, and hands it the value in the same step; otherwise the \<^verbatim>\<open>default\<close> case
  runs at once.

  The goroutine is at one of four places: on its way to the receive (it has been started,
  or \<^verbatim>\<open>mergeToShard\<close> has returned, and it is not blocked in the receive yet), blocked in
  the receive, holding a value received with \<^verbatim>\<open>mergeToShard\<close> not called yet, or inside
  \<^verbatim>\<open>mergeToShard\<close>. The gate is that place, together with the number of calls of
  \<^verbatim>\<open>mergeToShard\<close> that have begun and not returned.
\<close>

datatype merger = Looping | Receiving | Received | Merging

record gate =
  merger :: merger
  executing :: nat

definition mergeOrError :: "gate \<Rightarrow> response \<times> gate" where
  "mergeOrError g =
     (if merger g = Receiving
      then (\<lparr>status = StatusOK, body = Text (Msg ''Merge started.'' [])\<rparr>,
            g\<lparr>merger := Received\<rparr>)
      else (http_Error (Msg ''Merge already in progress, please try again later.'' [])
              StatusInternalServerError,
            g))"

text \<open>
  The steps of the goroutine: it blocks in the receive; with a value received it calls
  \<^verbatim>\<open>mergeToShard\<close>; \<^verbatim>\<open>mergeToShard\<close> returns, and the loop goes on to the next receive.
  A step that the goroutine cannot take where it is leaves the gate as it is. (When
  \<^verbatim>\<open>mergeToShard\<close> ends the process instead of returning, no request is answered any
  more.)
\<close>

definition blocks_in_receive :: "gate \<Rightarrow> gate" where
  "blocks_in_receive g = (if merger g = Looping then g\<lparr>merger := Receiving\<rparr> else g)"

definition merge_begins :: "gate \<Rightarrow> gate" where
  "merge_begins g =
     (if merger g = Received
      then g\<lparr>merger := Merging, executing := executing g + 1\<rparr>
      else g)"

definition merge_returns :: "gate \<Rightarrow> gate" where
  "merge_returns g =
     (if merger g = Merging
      then g\<lparr>merger := Looping, executing := executing g - 1\<rparr>
      else g)"

datatype event = PostMerge | BlocksInReceive | MergeBegins | MergeReturns

text \<open>
  The gate after a sequence of events, in the order in which the scheduler lets them
  happen, and the responses sent, in order.
\<close>

fun run :: "gate \<Rightarrow> event list \<Rightarrow> response list \<times> gate" where
  "run g [] = ([], g)"
| "run g (PostMerge # evs) =
     (case mergeOrError g of (r, g') \<Rightarrow>
        (case run g' evs of (rs, g'') \<Rightarrow> (r # rs, g'')))"
| "run g (BlocksInReceive # evs) = run (blocks_in_receive g) evs"
| "run g (MergeBegins # evs) = run (merge_begins g) evs"
| "run g (MergeReturns # evs) = run (merge_returns g) evs"

text \<open>
  \<^verbatim>\<open>main\<close> makes the channel and starts the goroutine with \<^verbatim>\<open>go\<close>: it has not reached the
  receive yet.
\<close>

definition main_gate :: gate where
  "main_gate = \<lparr>merger = Looping, executing = 0\<rparr>"

text \<open>The two answers of \<^verbatim>\<open>mergeOrError\<close>.\<close>

definition merge_started :: response where
  "merge_started = \<lparr>status = 200, body = Text (Msg ''Merge started.'' [])\<rparr>"

definition merge_in_progress :: response where
  "merge_in_progress =
     \<lparr>status = 500,
      body = Line (Msg ''Merge already in progress, please try again later.'' [])\<rparr>"

section \<open>The per-package indexer\<close>

text \<open>
  The unpacked tree under the staging directory, as \<^verbatim>\<open>filepath.Walk\<close> finds it: every
  entry has its name, what \<^verbatim>\<open>Lstat\<close> returns for it (nothing when it fails), its bytes
  when it is a regular file, and its entries when it is a directory, in the order of the
  walk. A directory that cannot be read is one without entries: the second call of the
  function that \<^verbatim>\<open>Walk\<close> then makes changes nothing.
\<close>

datatype entry =
  Entry (ename: string) (einfo: "fileinfo option") (ebytes: string) (kids: "entry list")

datatype walk_result = NilError | SkipDir

text \<open>
  The index builder holds the names added so far. \<open>copied\<close> lists the files written to
  the store, in order.
\<close>

record wstate =
  index :: "string list"
  store :: filesys
  copied :: "string list"

text \<open>
  Modelled from the spec: the builder's \<^verbatim>\<open>AddFile(source_path, stored_name)\<close> of the
  index package, which is not among the sources. It adds the file to the index under the
  stored name, or fails and adds nothing; which files it refuses is the parameter
  \<open>AddFile_fails\<close>. The result says whether it failed, and gives the builder.
\<close>

definition AddFile :: "env \<Rightarrow> string list \<Rightarrow> string \<Rightarrow> string \<Rightarrow> string \<Rightarrow> bool \<times> string list" where
  "AddFile en ix path nm content =
     (if AddFile_fails en path nm content then (True, ix) else (False, ix @ [nm]))"

text \<open>
  The function given to \<^verbatim>\<open>filepath.Walk\<close>. Its result is the error it returns to the
  walk (\<open>NilError\<close> for \<^verbatim>\<open>nil\<close>; \<open>SkipDir\<close> is returned for directories only), whether
  it has removed the entry from the staging tree, and the state.
\<close>

definition walkFn ::
  "env \<Rightarrow> nat \<Rightarrow> string \<Rightarrow> fileinfo option \<Rightarrow> string \<Rightarrow> wstate
     \<Rightarrow> error + (walk_result \<times> bool \<times> wstate)" where
  "walkFn en stripLen path fi content st =
     (let (dir, filename) = filepath_Split path;
          skip = (if filename \<noteq> [] then ignored en fi dir filename else None)
      in
      if filename \<noteq> [] \<and> skip \<noteq> None then
        (case fi of
           None \<Rightarrow> Inl NilDereference
         | Some i \<Rightarrow>
             if IsDir i then
               (if faults en SysRemoveAll path
                then Inl (Fatal (Msg ''Could not remove directory %q: %v\<newline>'' [S path, E EIO]))
                else Inr (SkipDir, True, st))
             else
               (if faults en SysRemove path
                then Inl (Fatal (Msg ''Could not remove file %q: %v\<newline>'' [S path, E EIO]))
                else Inr (NilError, True, st)))
      else if (case fi of None \<Rightarrow> True | Some i \<Rightarrow> \<not> IsRegular (Mode i)) then
        Inr (NilError, False, st)
      else if \<not> utf8_ValidString path then
        Inr (NilError, False, st)
      else if length path < stripLen then
        Inl SliceBounds
      else case AddFile en (index st) path (drop stripLen path) content of
        (True, _) \<Rightarrow>
          (if faults en SysRemove path
           then Inl (Fatal (Msg ''Could not remove file %q: %v\<newline>'' [S path, E EIO]))
           else Inr (NilError, True, st))
      | (False, ix) \<Rightarrow>
        (let st1 = st\<lparr>index := ix\<rparr>;
             outputPath = filepath_Join [unpackedPath en, drop stripLen path]
         in
         case os_MkdirAll (faults en) (filepath_Dir outputPath) (store st1) of
           Inl err \<Rightarrow> Inl (Fatal (Msg ''Could not create directory: %v\<newline>'' [E err]))
         | Inr f1 \<Rightarrow>
             (case os_Create (faults en) outputPath f1 of
                Inl err \<Rightarrow>
                  Inl (Fatal (Msg ''Could not create output file %q: %v\<newline>''
                                [S outputPath, E err]))
              | Inr f2 \<Rightarrow>
                  if faults en SysOpen path then
                    Inl (Fatal (Msg ''Could not open input file %q: %v\<newline>'' [S path, E EIO]))
                  else if faults en SysCopy path then
                    Inl (Fatal (Msg ''Could not copy %q to %q: %v\<newline>''
                                  [S path, S outputPath, E EIO]))
                  else
                    Inr (NilError, False,
                         st1\<lparr>store := write_file outputPath (Bytes content) f2,
                             copied := copied st1 @ [outputPath]\<rparr>))))"

text \<open>
  \<^verbatim>\<open>filepath.Walk\<close>: the function is called on the entry; unless it answers \<open>SkipDir\<close>,
  the entries of a directory are walked in order, each under the path joined with its
  name. The result is what is left of the entry in the staging tree, and the state.
\<close>

fun walk :: "env \<Rightarrow> nat \<Rightarrow> string \<Rightarrow> entry \<Rightarrow> wstate \<Rightarrow> error + (entry option \<times> wstate)"
and walk_kids :: "env \<Rightarrow> nat \<Rightarrow> string \<Rightarrow> entry list \<Rightarrow> wstate \<Rightarrow> error + (entry list \<times> wstate)"
where
  "walk en stripLen path (Entry nm fi content ks) st =
     (case walkFn en stripLen path fi content st of
        Inl e \<Rightarrow> Inl e
      | Inr (r, removed, st1) \<Rightarrow>
          if removed then Inr (None, st1)
          else if r = SkipDir \<or> (case fi of None \<Rightarrow> True | Some i \<Rightarrow> \<not> IsDir i) then
            Inr (Some (Entry nm fi content ks), st1)
          else
            (case walk_kids en stripLen path ks st1 of
               Inl e \<Rightarrow> Inl e
             | Inr (ks', st2) \<Rightarrow> Inr (Some (Entry nm fi content ks'), st2)))"
| "walk_kids en stripLen path [] st = Inr ([], st)"
| "walk_kids en stripLen path (k # ks) st =
     (case walk en stripLen (filepath_Join [path, ename k]) k st of
        Inl e \<Rightarrow> Inl e
      | Inr (k', st1) \<Rightarrow>
          (case walk_kids en stripLen path ks st1 of
             Inl e \<Rightarrow> Inl e
           | Inr (ks', st2) \<Rightarrow>
               Inr ((case k' of None \<Rightarrow> ks' | Some e \<Rightarrow> e # ks'), st2)))"

text \<open>
  Modelled from the spec: \<^verbatim>\<open>index.Create\<close> and the builder's \<^verbatim>\<open>Flush\<close> of the index
  package, which are not among the sources. \<^verbatim>\<open>Create\<close> opens a new builder that writes
  to the given file; \<^verbatim>\<open>Flush\<close> writes the shard, whose entries are the names added.
\<close>

definition index_Create :: "faults \<Rightarrow> string \<Rightarrow> filesys \<Rightarrow> errno + filesys" where
  "index_Create flt p f = os_Create flt p f"

definition index_Flush :: "string \<Rightarrow> string list \<Rightarrow> filesys \<Rightarrow> filesys" where
  "index_Flush p names f = write_file p (Shard names) f"

text \<open>
  \<open>stage\<close> is the tree at \<^verbatim>\<open>tmpdir/pkg/pkg\<close>. The result is what is left of it, the
  files copied, and the state of the process.
\<close>

definition indexPackage ::
  "env \<Rightarrow> string \<Rightarrow> entry \<Rightarrow> pstate \<Rightarrow> error + (entry option \<times> string list \<times> pstate)" where
  "indexPackage en pkg stage s =
     (let unpacked = filepath_Join [tmpdir en, pkg, pkg] in
      case os_MkdirAll (faults en) (unpackedPath en) (fs s) of
        Inl err \<Rightarrow> Inl (Fatal (Msg ''Could not create directory: %v\<newline>'' [E err]))
      | Inr f0 \<Rightarrow>
          (let tmpIndexPath = filepath_Join [unpackedPath en, pkg @ ''.tmp''] in
           case index_Create (faults en) tmpIndexPath f0 of
             Inl err \<Rightarrow> Inl (Fatal (Msg ''%v'' [E err]))
           | Inr f1 \<Rightarrow>
               (let stripLen = length (filepath_Join [tmpdir en, pkg]) + 1 in
                case walk en stripLen unpacked stage \<lparr>index = [], store = f1, copied = []\<rparr> of
                  Inl e \<Rightarrow> Inl e
                | Inr (stage', st) \<Rightarrow>
                    (let f2 = index_Flush tmpIndexPath (index st) (store st);
                         finalIndexPath = filepath_Join [unpackedPath en, pkg @ ''.idx'']
                     in
                     case os_Rename (faults en) tmpIndexPath finalIndexPath f2 of
                       Inl err \<Rightarrow> Inl (Fatal (Msg ''%v'' [E err]))
                     | Inr f3 \<Rightarrow>
                         Inr (stage', copied st,
                              s\<lparr>fs := f3,
                                successfulPackageIndexes :=
                                  successfulPackageIndexes s + 1\<rparr>)))))"

section \<open>Configurations and states used as examples\<close>

text \<open>
  A configuration with the store at \<^verbatim>\<open>/s\<close> and the staging directory at \<^verbatim>\<open>/t\<close>, in which
  no system call fails for an outside reason, the backend accepts every replacement, the
  filter excludes object files (names ending in \<^verbatim>\<open>.o\<close>) and the builder accepts every file.
\<close>

definition example_env :: env where
  "example_env =
     \<lparr>unpackedPath = ''/s'', tmpdir = ''/t'', cpuProfile = [], debugSkip = False,
      faults = (\<lambda>_ _. False), removed_on_failure = (\<lambda>_. False),
      temp_random = [1], os_TempDir = ''/tmp'',
      ReplaceIndex = (\<lambda>_. None), cpu_profile_data = [],
      ignored = (\<lambda>_ _ filename. if strings_HasSuffix filename ''.o''
                                   then Some ''object file'' else None),
      AddFile_fails = (\<lambda>_ _ _. False)\<rparr>"

definition state_of :: "filesys \<Rightarrow> pstate" where
  "state_of f =
     \<lparr>fs = f, successfulGarbageCollects = 0, successfulMerges = 0,
      successfulPackageIndexes = 0, filesInIndex = 0, rpcs = []\<rparr>"

section \<open>Invariant of the walk\<close>

text \<open>
  While the tree is walked, the files copied are the names in the index builder, each
  joined to the store's path, in the same order; and each of them is a file of the store.
\<close>

definition copy_inv :: "env \<Rightarrow> wstate \<Rightarrow> bool" where
  "copy_inv en st \<longleftrightarrow>
     copied st = map (\<lambda>nm. filepath_Join [unpackedPath en, nm]) (index st)
     \<and> (\<forall>p\<in>set (copied st). \<exists>c. map_of (store st) (fs_key p) = Some (File c))"

section \<open>Files with a path that is not valid UTF-8\<close>

text \<open>The filter gives a reason for the entry at this path.\<close>

definition excluded :: "env \<Rightarrow> string \<Rightarrow> fileinfo option \<Rightarrow> bool" where
  "excluded en path fi =
     (case filepath_Split path of
        (dir, filename) \<Rightarrow> filename \<noteq> [] \<and> ignored en fi dir filename \<noteq> None)"

text \<open>
  A regular file whose path is not valid UTF-8 and for which the filter gives no reason.
\<close>

definition invalid_utf8_file :: "env \<Rightarrow> string \<Rightarrow> entry \<Rightarrow> bool" where
  "invalid_utf8_file en path e =
     (case einfo e of
        None \<Rightarrow> False
      | Some i \<Rightarrow> IsRegular (Mode i) \<and> \<not> utf8_ValidString path \<and> \<not> excluded en path (Some i))"

text \<open>The tree without such files, at any depth below its root.\<close>

fun without :: "env \<Rightarrow> string \<Rightarrow> entry \<Rightarrow> entry"
and without_kids :: "env \<Rightarrow> string \<Rightarrow> entry list \<Rightarrow> entry list"
where
  "without en path (Entry nm fi content ks) = Entry nm fi content (without_kids en path ks)"
| "without_kids en path [] = []"
| "without_kids en path (k # ks) =
     (if invalid_utf8_file en (filepath_Join [path, ename k]) k
      then without_kids en path ks
      else without en (filepath_Join [path, ename k]) k # without_kids en path ks)"

text \<open>
  \<open>sits en path t p e\<close>: the entry \<open>e\<close> is in the tree \<open>t\<close> (which is at \<open>path\<close>) at the
  path \<open>p\<close>, and every entry above it is a directory for which the filter gives no reason:
  the walk comes to it.
\<close>

fun sits :: "env \<Rightarrow> string \<Rightarrow> entry \<Rightarrow> string \<Rightarrow> entry \<Rightarrow> bool"
and sits_kids :: "env \<Rightarrow> string \<Rightarrow> entry list \<Rightarrow> string \<Rightarrow> entry \<Rightarrow> bool"
where
  "sits en path (Entry nm fi content ks) p e =
     ((p = path \<and> e = Entry nm fi content ks)
      \<or> (case fi of
            None \<Rightarrow> False
          | Some i \<Rightarrow> IsDir i \<and> \<not> excluded en path fi \<and> sits_kids en path ks p e))"
| "sits_kids en path [] p e = False"
| "sits_kids en path (k # ks) p e =
     (sits en (filepath_Join [path, ename k]) k p e \<or> sits_kids en path ks p e)"

section \<open>Well-formed staging trees and files of the store\<close>

text \<open>Every entry below the root has a name that a directory entry can have.\<close>

fun wf_tree :: "entry \<Rightarrow> bool"
and wf_trees :: "entry list \<Rightarrow> bool"
where
  "wf_tree (Entry nm fi content ks) = wf_trees ks"
| "wf_trees [] = True"
| "wf_trees (k # ks) = (valid_name (ename k) \<and> wf_tree k \<and> wf_trees ks)"

definition is_file :: "filesys \<Rightarrow> path \<Rightarrow> bool" where
  "is_file f k = (case map_of f k of Some (File _) \<Rightarrow> True | _ \<Rightarrow> False)"

text \<open>\<open>within k q\<close>: the file \<open>q\<close> is \<open>k\<close> itself or lies below it.\<close>

definition within :: "path \<Rightarrow> path \<Rightarrow> bool" where
  "within k q \<longleftrightarrow> q = k \<or> below k q"

text \<open>
  While the tree of package \<open>pkg\<close> is walked from the store \<open>f0\<close>: every file copied has
  a key below the store that starts with \<open>pkg\<close>, every file of the store was a file
  of \<open>f0\<close> or has been copied, and every file of \<open>f0\<close> is still a file of the store.
\<close>

definition store_inv :: "env \<Rightarrow> string \<Rightarrow> filesys \<Rightarrow> wstate \<Rightarrow> bool" where
  "store_inv en pkg f0 st \<longleftrightarrow>
     (\<forall>p\<in>set (copied st). \<exists>ns.
        fs_key p = (fst (fs_key (unpackedPath en)), snd (fs_key (unpackedPath en)) @ pkg # ns))
     \<and> (\<forall>k. is_file (store st) k \<longrightarrow> is_file f0 k \<or> k \<in> fs_key ` set (copied st))
     \<and> (\<forall>k. is_file f0 k \<longrightarrow> is_file (store st) k)"

text \<open>
  The path at which the walk finds the entry reached from the root of the package's tree
  by the names \<open>ns\<close>.
\<close>

definition staged_path :: "env \<Rightarrow> string \<Rightarrow> string list \<Rightarrow> string" where
  "staged_path en pkg ns =
     render (is_rooted (tmpdir en)) (path_elems (tmpdir en) @ [pkg, pkg] @ ns)"


section \<open>Paths and their keys\<close>

lemma split_sep_not_Nil [simp]: "split_sep s \<noteq> []"
  by (induction s) (auto split: list.splits)

lemma split_sep_no_sep: "CHR ''/'' \<notin> set s \<Longrightarrow> split_sep s = [s]"
  by (induction s) auto

lemma split_sep_sep:
  "CHR ''/'' \<notin> set a \<Longrightarrow> split_sep (a @ CHR ''/'' # b) = a # split_sep b"
  by (induction a) auto

lemma split_sep_snoc:
  "CHR ''/'' \<notin> set n \<Longrightarrow> split_sep (d @ CHR ''/'' # n) = split_sep d @ [n]"
proof (induction d)
  case Nil
  then show ?case by (simp add: split_sep_no_sep)
next
  case (Cons c d)
  then show ?case
    by (cases "split_sep d") (auto split: list.splits)
qed

lemma split_sep_elems: "e \<in> set (split_sep s) \<Longrightarrow> CHR ''/'' \<notin> set e"
proof (induction s arbitrary: e)
  case Nil
  then show ?case by simp
next
  case (Cons c s)
  then show ?case
    by (cases "split_sep s") (auto split: if_splits)
qed

lemma split_join:
  "es \<noteq> [] \<Longrightarrow> \<forall>e\<in>set es. CHR ''/'' \<notin> set e \<Longrightarrow> split_sep (join_sep es) = es"
proof (induction es rule: join_sep.induct)
  case 1
  then show ?case by simp
next
  case (2 e)
  then show ?case by (simp add: split_sep_no_sep)
next
  case (3 e f es)
  then show ?case by (simp add: split_sep_sep)
qed

lemma normal_Nil [simp]: "normal r []"
  by (simp add: normal_def)

lemma normal_butlast:
  assumes "normal r st" "st \<noteq> []"
  shows "normal r (butlast st)"
proof -
  have "\<not> r \<and> set ys \<subseteq> {''..''}" if "butlast st = ys @ ''..'' # zs" for ys zs
  proof -
    from that assms(2) have "st = ys @ ''..'' # (zs @ [last st])"
      by (metis append_butlast_last_id append_Cons append_assoc)
    with assms(1) show ?thesis unfolding normal_def by blast
  qed
  moreover have "\<forall>e\<in>set (butlast st). e \<noteq> [] \<and> e \<noteq> ''.'' \<and> CHR ''/'' \<notin> set e"
    using assms(1) by (auto simp: normal_def dest: in_set_butlastD)
  ultimately show ?thesis by (simp add: normal_def)
qed

lemma normal_snoc_dotdot:
  assumes "normal r st" "st = [] \<or> last st = ''..''" "\<not> r"
  shows "normal r (st @ [''..''])"
proof -
  have all: "set st \<subseteq> {''..''}"
  proof (cases "st = []")
    case True
    then show ?thesis by simp
  next
    case False
    with assms(2) have "st = butlast st @ ''..'' # []"
      by (metis append_butlast_last_id)
    with assms(1) have "set (butlast st) \<subseteq> {''..''}"
      unfolding normal_def by blast
    moreover from False assms(2) have "set st = insert ''..'' (set (butlast st))"
      by (metis append_butlast_last_id list.simps(15) rotate1.simps(2) set_rotate1)
    ultimately show ?thesis by auto
  qed
  have "\<not> r \<and> set ys \<subseteq> {''..''}" if "st @ [''..''] = ys @ ''..'' # zs" for ys zs
  proof (cases zs rule: rev_cases)
    case Nil
    with that have "ys = st" by simp
    with all assms(3) show ?thesis by simp
  next
    case (snoc zs' z)
    with that have "st = ys @ ''..'' # zs'"
      by (metis append_Cons append_assoc butlast_snoc)
    with assms(1) show ?thesis unfolding normal_def by blast
  qed
  moreover have "\<forall>e\<in>set (st @ [''..'']). e \<noteq> [] \<and> e \<noteq> ''.'' \<and> CHR ''/'' \<notin> set e"
    using assms(1) by (auto simp: normal_def)
  ultimately show ?thesis unfolding normal_def by blast
qed

lemma normal_snoc:
  assumes "normal r st" "e \<noteq> []" "e \<noteq> ''.''" "e \<noteq> ''..''" "CHR ''/'' \<notin> set e"
  shows "normal r (st @ [e])"
proof -
  have "\<not> r \<and> set ys \<subseteq> {''..''}" if "st @ [e] = ys @ ''..'' # zs" for ys zs
  proof (cases zs rule: rev_cases)
    case Nil
    with that assms(4) show ?thesis by simp
  next
    case (snoc zs' z)
    with that have "st = ys @ ''..'' # zs'"
      by (metis append_Cons append_assoc butlast_snoc)
    with assms(1) show ?thesis unfolding normal_def by blast
  qed
  moreover have "\<forall>x\<in>set (st @ [e]). x \<noteq> [] \<and> x \<noteq> ''.'' \<and> CHR ''/'' \<notin> set x"
    using assms by (auto simp: normal_def)
  ultimately show ?thesis unfolding normal_def by blast
qed

lemma normal_clean_elem:
  assumes "normal r st" "CHR ''/'' \<notin> set e"
  shows "normal r (clean_elem r st e)"
proof -
  consider "e = [] \<or> e = ''.''"
    | "e = ''..''" "st \<noteq> [] \<and> last st \<noteq> ''..''"
    | "e = ''..''" "\<not> (st \<noteq> [] \<and> last st \<noteq> ''..'')" "r"
    | "e = ''..''" "\<not> (st \<noteq> [] \<and> last st \<noteq> ''..'')" "\<not> r"
    | "e \<noteq> []" "e \<noteq> ''.''" "e \<noteq> ''..''"
    by blast
  then show ?thesis
  proof cases
    case 1
    with assms(1) show ?thesis by (auto simp: clean_elem_def)
  next
    case 2
    then have "clean_elem r st e = butlast st" by (simp add: clean_elem_def)
    with 2 assms(1) show ?thesis by (simp add: normal_butlast)
  next
    case 3
    then have "clean_elem r st e = st" by (auto simp: clean_elem_def)
    with assms(1) show ?thesis by simp
  next
    case 4
    then have "clean_elem r st e = st @ [''..'']" by (auto simp: clean_elem_def)
    moreover from 4 assms(1) have "normal r (st @ [''..''])"
      by (intro normal_snoc_dotdot) auto
    ultimately show ?thesis by simp
  next
    case 5
    then have "clean_elem r st e = st @ [e]" by (simp add: clean_elem_def)
    moreover from 5 assms have "normal r (st @ [e])"
      by (intro normal_snoc)
    ultimately show ?thesis by simp
  qed
qed

lemma normal_foldl:
  "normal r st \<Longrightarrow> \<forall>e\<in>set es. CHR ''/'' \<notin> set e \<Longrightarrow> normal r (foldl (clean_elem r) st es)"
  by (induction es arbitrary: st) (simp_all add: normal_clean_elem)

lemma normal_path_elems: "normal (is_rooted p) (path_elems p)"
  unfolding path_elems_def
  by (rule normal_foldl) (auto dest: split_sep_elems)

lemma clean_elem_normal_snoc:
  assumes "normal r (st @ e # es)"
  shows "clean_elem r st e = st @ [e]"
proof -
  from assms have e: "e \<noteq> []" "e \<noteq> ''.''"
    by (auto simp: normal_def)
  show ?thesis
  proof (cases "e = ''..''")
    case True
    with assms have "\<not> r \<and> set st \<subseteq> {''..''}"
      unfolding normal_def by blast
    then have "\<not> r" "st = [] \<or> last st = ''..''"
      using last_in_set by fastforce+
    with True show ?thesis by (auto simp: clean_elem_def)
  next
    case False
    with e show ?thesis by (simp add: clean_elem_def)
  qed
qed

lemma foldl_clean_normal:
  "normal r (st @ es) \<Longrightarrow> foldl (clean_elem r) st es = st @ es"
proof (induction es arbitrary: st)
  case Nil
  then show ?case by simp
next
  case (Cons e es)
  from Cons.prems have "clean_elem r st e = st @ [e]"
    by (rule clean_elem_normal_snoc)
  moreover from Cons.prems have "foldl (clean_elem r) (st @ [e]) es = (st @ [e]) @ es"
    by (intro Cons.IH) simp
  ultimately show ?case by simp
qed

lemma normal_no_sep: "normal r st \<Longrightarrow> \<forall>e\<in>set st. CHR ''/'' \<notin> set e"
  by (simp add: normal_def)

lemma is_rooted_join_sep:
  "normal r st \<Longrightarrow> \<not> is_rooted (join_sep st)"
proof (cases st rule: join_sep.cases)
  case 1
  then show ?thesis by (simp add: is_rooted_def)
next
  case (2 e)
  assume "normal r st"
  with 2 show ?thesis
    by (cases e) (auto simp: is_rooted_def normal_def)
next
  case (3 e f es)
  assume "normal r st"
  with 3 show ?thesis
    by (cases e) (auto simp: is_rooted_def normal_def)
qed

lemma fs_key_render:
  assumes "normal r st"
  shows "fs_key (render r st) = (r, st)"
proof (cases r)
  case True
  have "path_elems (CHR ''/'' # join_sep st) = st"
  proof (cases "st = []")
    case True
    then show ?thesis by (simp add: path_elems_def is_rooted_def clean_elem_def)
  next
    case False
    then have "split_sep (join_sep st) = st"
      using assms by (intro split_join) (auto dest: normal_no_sep)
    moreover have "foldl (clean_elem True) [] st = [] @ st"
      using assms \<open>r\<close> by (intro foldl_clean_normal) simp
    ultimately show ?thesis
      by (simp add: path_elems_def is_rooted_def clean_elem_def)
  qed
  with True show ?thesis
    by (simp add: fs_key_def render_def is_rooted_def)
next
  case False
  show ?thesis
  proof (cases "st = []")
    case True
    with False show ?thesis
      by (simp add: fs_key_def render_def is_rooted_def path_elems_def clean_elem_def)
  next
    case nonempty: False
    then have "split_sep (join_sep st) = st"
      using assms by (intro split_join) (auto dest: normal_no_sep)
    moreover have "foldl (clean_elem False) [] st = [] @ st"
      using assms False by (intro foldl_clean_normal) simp
    moreover have "\<not> is_rooted (join_sep st)"
      using assms by (rule is_rooted_join_sep)
    ultimately show ?thesis
      using False nonempty by (simp add: fs_key_def render_def path_elems_def)
  qed
qed

lemma fs_key_Clean: "fs_key (filepath_Clean p) = fs_key p"
  unfolding filepath_Clean_def
  by (simp add: fs_key_render normal_path_elems) (simp add: fs_key_def)

lemma path_elems_Nil [simp]: "path_elems [] = []"
  by (simp add: path_elems_def clean_elem_def)


lemma clean_elem_valid: "valid_name n \<Longrightarrow> clean_elem r st n = st @ [n]"
  by (simp add: clean_elem_def valid_name_def)

lemma fs_key_Join:
  assumes "valid_name n"
  shows "fs_key (filepath_Join [d, n]) = (is_rooted d, path_elems d @ [n])"
proof (cases "d = []")
  case True
  from assms have "split_sep n = [n]"
    by (intro split_sep_no_sep) (simp add: valid_name_def)
  moreover from assms have "\<not> is_rooted n"
    by (cases n) (auto simp: valid_name_def is_rooted_def)
  ultimately have "fs_key n = (False, [n])"
    using assms by (simp add: fs_key_def path_elems_def clean_elem_valid)
  moreover from assms have "n \<noteq> []" by (simp add: valid_name_def)
  ultimately show ?thesis
    using True by (simp add: filepath_Join_def fs_key_Clean is_rooted_def)
next
  case False
  then have r: "is_rooted (d @ CHR ''/'' # n) = is_rooted d"
    by (cases d) (simp_all add: is_rooted_def)
  from assms have "split_sep (d @ CHR ''/'' # n) = split_sep d @ [n]"
    by (intro split_sep_snoc) (simp add: valid_name_def)
  then have "path_elems (d @ CHR ''/'' # n) = path_elems d @ [n]"
    using assms by (simp add: path_elems_def r clean_elem_valid)
  with False r show ?thesis
    by (simp add: filepath_Join_def fs_key_Clean) (simp add: fs_key_def)
qed

section \<open>Directory listings\<close>

lemma dir_names_iff:
  "n \<in> set (dir_names f k) \<longleftrightarrow> (fst k, snd k @ [n]) \<in> fst ` set f"
proof
  assume "n \<in> set (dir_names f k)"
  then obtain q m where q: "(q, m) \<in> set f" "snd q \<noteq> []" "parent q = k" "n = last (snd q)"
    by (auto simp: dir_names_def)
  then have "q = (fst k, snd k @ [n])"
    by (cases q) (auto simp: parent_def)
  with q(1) show "(fst k, snd k @ [n]) \<in> fst ` set f" by force
next
  assume "(fst k, snd k @ [n]) \<in> fst ` set f"
  then obtain m where "((fst k, snd k @ [n]), m) \<in> set f" by auto
  then have "(\<lambda>(q, _). last (snd q)) ((fst k, snd k @ [n]), m) \<in> set (dir_names f k)"
    unfolding dir_names_def set_map
    by (intro imageI) (simp add: parent_def)
  then show "n \<in> set (dir_names f k)" by simp
qed

lemma wf_fs_valid:
  "wf_fs f \<Longrightarrow> (q, m) \<in> set f \<Longrightarrow> e \<in> set (snd q) \<Longrightarrow> valid_name e"
  by (auto simp: wf_fs_def list_all_iff)

lemma wf_fs_dir_names:
  assumes "wf_fs f" "n \<in> set (dir_names f k)"
  shows "valid_name n"
proof -
  from assms(2) obtain m where "((fst k, snd k @ [n]), m) \<in> set f"
    by (auto simp: dir_names_iff)
  with assms(1) show ?thesis
    by (rule wf_fs_valid) simp
qed

lemma packageNames_cases:
  assumes "packageNames en f = Inr names"
  shows "names = [] \<or> names = dir_names f (fs_key (unpackedPath en))"
  using assms
  by (auto simp: packageNames_def Readdirnames_def split: sum.splits if_splits node.splits)

lemma gc_found_iff:
  "gc_found pkg names \<longleftrightarrow> pkg \<in> set names \<and> \<not> strings_HasSuffix pkg ''.idx''"
  by (induction names) auto

lemma valid_name_idx:
  assumes "valid_name n"
  shows "valid_name (n @ ''.idx'')"
proof -
  have "length (n @ ''.idx'') \<noteq> length ''.''" "length (n @ ''.idx'') \<noteq> length ''..''"
    by simp_all
  then have "n @ ''.idx'' \<noteq> ''.''" "n @ ''.idx'' \<noteq> ''..''"
    by fastforce+
  with assms show ?thesis by (simp add: valid_name_def)
qed

lemma below_snoc: "below k (fst k, snd k @ [n])"
  by (simp add: below_def strict_prefix_def)

lemma below_trans: "below k q \<Longrightarrow> below q p \<Longrightarrow> below k p"
  by (auto simp: below_def)

lemma listPackages_loop_eq:
  "listPackages_loop names =
     map (\<lambda>name. take (length name - length ''.idx'') name)
       (filter (\<lambda>name. strings_HasSuffix name ''.idx'' \<and> name \<noteq> ''full.idx'') names)"
proof -
  have "foldl (\<lambda>packages name.
        if strings_HasSuffix name ''.idx'' \<and> name \<noteq> ''full.idx''
        then packages @ [take (length name - length ''.idx'') name]
        else packages) acc names =
     acc @ map (\<lambda>name. take (length name - length ''.idx'') name)
       (filter (\<lambda>name. strings_HasSuffix name ''.idx'' \<and> name \<noteq> ''full.idx'') names)" for acc
    by (induction names arbitrary: acc) simp_all
  then show ?thesis by (simp add: listPackages_loop_def)
qed

lemma HasSuffix_iff: "strings_HasSuffix s sfx \<longleftrightarrow> (\<exists>p. s = p @ sfx)"
proof
  assume "strings_HasSuffix s sfx"
  then have "s = take (length s - length sfx) s @ sfx"
    by (metis append_take_drop_id strings_HasSuffix_def)
  then show "\<exists>p. s = p @ sfx" ..
next
  assume "\<exists>p. s = p @ sfx"
  then show "strings_HasSuffix s sfx" by (auto simp: strings_HasSuffix_def)
qed

section \<open>The merge gate: one merge at a time\<close>

lemma mergeOrError_eq:
  "mergeOrError g =
     (if merger g = Receiving then (merge_started, g\<lparr>merger := Received\<rparr>)
      else (merge_in_progress, g))"
  by (simp add: mergeOrError_def merge_started_def merge_in_progress_def http_Error_def
      StatusOK_def StatusInternalServerError_def)

lemma step_executing:
  assumes "executing g = (if merger g = Merging then 1 else 0)"
  shows "executing (snd (mergeOrError g)) = (if merger (snd (mergeOrError g)) = Merging then 1 else 0)"
    and "executing (blocks_in_receive g) = (if merger (blocks_in_receive g) = Merging then 1 else 0)"
    and "executing (merge_begins g) = (if merger (merge_begins g) = Merging then 1 else 0)"
    and "executing (merge_returns g) = (if merger (merge_returns g) = Merging then 1 else 0)"
  using assms
  by (simp_all add: mergeOrError_def blocks_in_receive_def merge_begins_def merge_returns_def)

lemma run_executing:
  "executing g = (if merger g = Merging then 1 else 0) \<Longrightarrow>
   executing (snd (run g evs)) = (if merger (snd (run g evs)) = Merging then 1 else 0)"
proof (induction evs arbitrary: g)
  case Nil
  then show ?case by simp
next
  case (Cons ev evs)
  show ?case
  proof (cases ev)
    case PostMerge
    have "executing (snd (run (snd (mergeOrError g)) evs)) =
          (if merger (snd (run (snd (mergeOrError g)) evs)) = Merging then 1 else 0)"
      by (rule Cons.IH) (rule step_executing(1) [OF Cons.prems])
    with PostMerge show ?thesis
      by (simp add: split_beta)
  next
    case BlocksInReceive
    have "executing (snd (run (blocks_in_receive g) evs)) =
          (if merger (snd (run (blocks_in_receive g) evs)) = Merging then 1 else 0)"
      by (rule Cons.IH) (rule step_executing(2) [OF Cons.prems])
    with BlocksInReceive show ?thesis by simp
  next
    case MergeBegins
    have "executing (snd (run (merge_begins g) evs)) =
          (if merger (snd (run (merge_begins g) evs)) = Merging then 1 else 0)"
      by (rule Cons.IH) (rule step_executing(3) [OF Cons.prems])
    with MergeBegins show ?thesis by simp
  next
    case MergeReturns
    have "executing (snd (run (merge_returns g) evs)) =
          (if merger (snd (run (merge_returns g) evs)) = Merging then 1 else 0)"
      by (rule Cons.IH) (rule step_executing(4) [OF Cons.prems])
    with MergeReturns show ?thesis by simp
  qed
qed

text \<open>
  While the goroutine does not block in the receive, it is not there again once it has
  left, and every request is answered with the error.
\<close>

lemma run_not_receiving:
  "merger g \<noteq> Receiving \<Longrightarrow> BlocksInReceive \<notin> set evs \<Longrightarrow>
   fst (run g evs) = replicate (count_list evs PostMerge) merge_in_progress"
proof (induction evs arbitrary: g)
  case Nil
  then show ?case by simp
next
  case (Cons ev evs)
  from Cons.prems(2) have evs: "BlocksInReceive \<notin> set evs" and ev: "ev \<noteq> BlocksInReceive"
    by auto
  show ?case
  proof (cases ev)
    case PostMerge
    from Cons.prems(1) have "mergeOrError g = (merge_in_progress, g)"
      by (simp add: mergeOrError_eq)
    with PostMerge Cons.IH [OF Cons.prems(1) evs] show ?thesis
      by (simp add: split_beta)
  next
    case BlocksInReceive
    with ev show ?thesis by simp
  next
    case MergeBegins
    from Cons.prems(1) have "merger (merge_begins g) \<noteq> Receiving"
      by (simp add: merge_begins_def)
    from Cons.IH [OF this evs] MergeBegins show ?thesis by simp
  next
    case MergeReturns
    from Cons.prems(1) have "merger (merge_returns g) \<noteq> Receiving"
      by (simp add: merge_returns_def)
    from Cons.IH [OF this evs] MergeReturns show ?thesis by simp
  qed
qed

lemma run_receiving:
  "merger g = Receiving \<Longrightarrow> BlocksInReceive \<notin> set evs \<Longrightarrow> PostMerge \<in> set evs \<Longrightarrow>
   fst (run g evs) = merge_started # replicate (count_list evs PostMerge - 1) merge_in_progress"
proof (induction evs arbitrary: g)
  case Nil
  then show ?case by simp
next
  case (Cons ev evs)
  from Cons.prems(2) have evs: "BlocksInReceive \<notin> set evs" and ev: "ev \<noteq> BlocksInReceive"
    by auto
  show ?case
  proof (cases ev)
    case PostMerge
    from Cons.prems(1) have m: "mergeOrError g = (merge_started, g\<lparr>merger := Received\<rparr>)"
      by (simp add: mergeOrError_eq)
    have "fst (run (g\<lparr>merger := Received\<rparr>) evs) =
        replicate (count_list evs PostMerge) merge_in_progress"
      using evs by (intro run_not_receiving) simp_all
    with PostMerge m show ?thesis
      by (simp add: split_beta)
  next
    case BlocksInReceive
    with ev show ?thesis by simp
  next
    case MergeBegins
    from Cons.prems(1) have "merge_begins g = g"
      by (simp add: merge_begins_def)
    moreover from MergeBegins Cons.prems(3) have "PostMerge \<in> set evs" by simp
    ultimately show ?thesis
      using Cons.IH [OF Cons.prems(1) evs] MergeBegins by simp
  next
    case MergeReturns
    from Cons.prems(1) have "merge_returns g = g"
      by (simp add: merge_returns_def)
    moreover from MergeReturns Cons.prems(3) have "PostMerge \<in> set evs" by simp
    ultimately show ?thesis
      using Cons.IH [OF Cons.prems(1) evs] MergeReturns by simp
  qed
qed

text \<open>
  Claim C2, as amended. Whatever the order of requests and steps of the merging goroutine
  after start-up, at most one call of \<^verbatim>\<open>mergeToShard\<close> is executing. A \<^verbatim>\<open>POST /merge\<close>
  request is answered in its own step: 200 \<^verbatim>\<open>Merge started.\<close> exactly when the goroutine
  is blocked in the receive, and that request hands it the one value; 500
  \<^verbatim>\<open>Merge already in progress\<close> otherwise, with the gate as it was, also when no merge
  is executing because the goroutine has not reached the receive yet. So of the requests
  that arrive while the goroutine does not come to block in the receive again, exactly
  one, the first, is answered 200 when the goroutine was blocked in the receive, and none
  otherwise; all the others are answered 500.
\<close>

theorem merge_gate:
  "executing (snd (run main_gate evs)) \<le> 1
   \<and> mergeOrError g =
       (if merger g = Receiving then (merge_started, g\<lparr>merger := Received\<rparr>)
        else (merge_in_progress, g))
   \<and> (merger g = Receiving \<and> BlocksInReceive \<notin> set evs' \<and> PostMerge \<in> set evs' \<longrightarrow>
        fst (run g evs') =
          merge_started # replicate (count_list evs' PostMerge - 1) merge_in_progress)
   \<and> (merger g \<noteq> Receiving \<and> BlocksInReceive \<notin> set evs' \<longrightarrow>
        fst (run g evs') = replicate (count_list evs' PostMerge) merge_in_progress)"
proof (intro conjI impI)
  have "executing (snd (run main_gate evs)) =
        (if merger (snd (run main_gate evs)) = Merging then 1 else 0)"
    by (rule run_executing) (simp add: main_gate_def)
  then show "executing (snd (run main_gate evs)) \<le> 1" by simp
next
  show "mergeOrError g =
       (if merger g = Receiving then (merge_started, g\<lparr>merger := Received\<rparr>)
        else (merge_in_progress, g))"
    by (rule mergeOrError_eq)
next
  assume "merger g = Receiving \<and> BlocksInReceive \<notin> set evs' \<and> PostMerge \<in> set evs'"
  then show "fst (run g evs') =
          merge_started # replicate (count_list evs' PostMerge - 1) merge_in_progress"
    by (intro run_receiving) simp_all
next
  assume "merger g \<noteq> Receiving \<and> BlocksInReceive \<notin> set evs'"
  then show "fst (run g evs') = replicate (count_list evs' PostMerge) merge_in_progress"
    by (intro run_not_receiving) simp_all
qed

theorem merge_gate_witness:
  "merger (snd (run main_gate [BlocksInReceive])) = Receiving
   \<and> BlocksInReceive \<notin> set [PostMerge, PostMerge, MergeBegins, PostMerge, MergeReturns, PostMerge]
   \<and> PostMerge \<in> set [PostMerge, PostMerge, MergeBegins, PostMerge, MergeReturns, PostMerge]
   \<and> fst (run (snd (run main_gate [BlocksInReceive]))
            [PostMerge, PostMerge, MergeBegins, PostMerge, MergeReturns, PostMerge]) =
       [\<lparr>status = 200, body = Text (Msg ''Merge started.'' [])\<rparr>,
        \<lparr>status = 500,
          body = Line (Msg ''Merge already in progress, please try again later.'' [])\<rparr>,
        \<lparr>status = 500,
          body = Line (Msg ''Merge already in progress, please try again later.'' [])\<rparr>,
        \<lparr>status = 500,
          body = Line (Msg ''Merge already in progress, please try again later.'' [])\<rparr>]
   \<and> merger main_gate \<noteq> Receiving
   \<and> BlocksInReceive \<notin> set [PostMerge, PostMerge]
   \<and> fst (run main_gate [PostMerge, PostMerge]) =
       [\<lparr>status = 500,
          body = Line (Msg ''Merge already in progress, please try again later.'' [])\<rparr>,
        \<lparr>status = 500,
          body = Line (Msg ''Merge already in progress, please try again later.'' [])\<rparr>]
   \<and> executing (snd (run main_gate [BlocksInReceive, PostMerge, MergeBegins])) = 1"
proof -
  let ?g = "snd (run main_gate [BlocksInReceive])"
  let ?evs = "[PostMerge, PostMerge, MergeBegins, PostMerge, MergeReturns, PostMerge]"
  have r: "merger ?g = Receiving"
    by (simp add: main_gate_def blocks_in_receive_def)
  have e: "BlocksInReceive \<notin> set ?evs" "PostMerge \<in> set ?evs" by simp_all
  have c: "count_list ?evs PostMerge - 1 = Suc (Suc (Suc 0))" by simp
  from merge_gate [of "[]" ?g ?evs] r e
  have a: "fst (run ?g ?evs) =
      merge_started # replicate (count_list ?evs PostMerge - 1) merge_in_progress"
    by blast
  have l: "merger main_gate \<noteq> Receiving" by (simp add: main_gate_def)
  have e': "BlocksInReceive \<notin> set [PostMerge, PostMerge]" by simp
  have c': "count_list [PostMerge, PostMerge] PostMerge = Suc (Suc 0)" by simp
  from merge_gate [of "[]" main_gate "[PostMerge, PostMerge]"] l e'
  have b: "fst (run main_gate [PostMerge, PostMerge]) =
      replicate (count_list [PostMerge, PostMerge] PostMerge) merge_in_progress"
    by blast
  have x: "executing (snd (run main_gate [BlocksInReceive, PostMerge, MergeBegins])) = 1"
    by (simp add: main_gate_def blocks_in_receive_def mergeOrError_def merge_begins_def)
  from a have a': "fst (run ?g ?evs) =
       [\<lparr>status = 200, body = Text (Msg ''Merge started.'' [])\<rparr>,
        \<lparr>status = 500,
          body = Line (Msg ''Merge already in progress, please try again later.'' [])\<rparr>,
        \<lparr>status = 500,
          body = Line (Msg ''Merge already in progress, please try again later.'' [])\<rparr>,
        \<lparr>status = 500,
          body = Line (Msg ''Merge already in progress, please try again later.'' [])\<rparr>]"
    unfolding c by (simp add: merge_started_def merge_in_progress_def)
  from b have b': "fst (run main_gate [PostMerge, PostMerge]) =
       [\<lparr>status = 500,
          body = Line (Msg ''Merge already in progress, please try again later.'' [])\<rparr>,
        \<lparr>status = 500,
          body = Line (Msg ''Merge already in progress, please try again later.'' [])\<rparr>]"
    unfolding c' by (simp add: merge_in_progress_def)
  from r e a' l e' b' x show ?thesis by (intro conjI)
qed

text \<open>
  The claim as stated fails: after \<^verbatim>\<open>mergeToShard\<close> has returned and before the
  goroutine blocks in the receive again, no merge is executing, and of two requests
  that arrive then none is answered 200: both get 500 \<^verbatim>\<open>Merge already in progress\<close>.
\<close>

theorem merge_gate_returned_counterexample:
  "executing (snd (run main_gate [BlocksInReceive, PostMerge, MergeBegins, MergeReturns])) = 0
   \<and> merger (snd (run main_gate [BlocksInReceive, PostMerge, MergeBegins, MergeReturns])) = Looping
   \<and> fst (run (snd (run main_gate [BlocksInReceive, PostMerge, MergeBegins, MergeReturns]))
            [PostMerge, PostMerge]) =
       [\<lparr>status = 500,
          body = Line (Msg ''Merge already in progress, please try again later.'' [])\<rparr>,
        \<lparr>status = 500,
          body = Line (Msg ''Merge already in progress, please try again later.'' [])\<rparr>]"
  by (simp add: main_gate_def blocks_in_receive_def mergeOrError_def merge_begins_def
      merge_returns_def http_Error_def StatusInternalServerError_def)

section \<open>Strings in a JSON document\<close>

lemma list_upto2_cases:
  obtains "bs = []" | c1 where "bs = [c1]" | c1 c2 r where "bs = c1 # c2 # r"
proof (cases bs)
  case Nil
  then show ?thesis using that by blast
next
  case a: (Cons c1 r1)
  show ?thesis
  proof (cases r1)
    case Nil
    with a show ?thesis using that by blast
  next
    case (Cons c2 r2)
    with a show ?thesis using that by blast
  qed
qed

lemma list_upto3_cases:
  obtains "bs = []" | c1 where "bs = [c1]" | c1 c2 where "bs = [c1, c2]"
    | c1 c2 c3 r where "bs = c1 # c2 # c3 # r"
proof (cases bs rule: list_upto2_cases)
  case 1
  then show ?thesis using that by blast
next
  case 2
  then show ?thesis using that by blast
next
  case a: (3 c1 c2 r)
  show ?thesis
  proof (cases r)
    case Nil
    with a show ?thesis using that by blast
  next
    case (Cons c3 r3)
    with a show ?thesis using that by blast
  qed
qed

text \<open>A string is valid when a valid encoding starts it and the rest is valid.\<close>

lemma valid_bytes_width:
  "valid_bytes (b # bs) \<longleftrightarrow>
     0 < rune_width (b # bs) \<and> valid_bytes (drop (rune_width (b # bs) - 1) bs)"
proof -
  consider (one) "b < 0x80"
    | (two) "0xC2 \<le> b" "b \<le> 0xDF"
    | (three) "0xE0 \<le> b" "b \<le> 0xEF"
    | (four) "0xF0 \<le> b" "b \<le> 0xF4"
    | (none) "0x80 \<le> b" "b < 0xC2 \<or> 0xF4 < b"
    by linarith
  then show ?thesis
  proof cases
    case one
    then show ?thesis by (simp add: rune_width_def)
  next
    case two
    then have c: "\<not> b < 0x80" by simp
    show ?thesis
      by (cases bs) (auto simp: rune_width_def c two)
  next
    case three
    then have c: "\<not> b < 0x80" "\<not> (0xC2 \<le> b \<and> b \<le> 0xDF)" by simp_all
    show ?thesis
      by (cases bs rule: list_upto2_cases) (auto simp: rune_width_def c three)
  next
    case four
    then have c: "\<not> b < 0x80" "\<not> (0xC2 \<le> b \<and> b \<le> 0xDF)"
      "\<not> (0xE0 \<le> b \<and> b \<le> 0xEF)" by simp_all
    show ?thesis
      by (cases bs rule: list_upto3_cases) (auto simp: rune_width_def c four)
  next
    case none
    then have c: "\<not> b < 0x80" "\<not> (0xC2 \<le> b \<and> b \<le> 0xDF)"
      "\<not> (0xE0 \<le> b \<and> b \<le> 0xEF)" "\<not> (0xF0 \<le> b \<and> b \<le> 0xF4)" by auto
    show ?thesis by (simp add: rune_width_def c)
  qed
qed

lemma json_string_valid_bytes:
  "valid_bytes (map of_char s) \<Longrightarrow> json_string s = s"
proof (induction s rule: json_string.induct)
  case 1
  then show ?case by simp
next
  case (2 c cs)
  let ?n = "rune_width (map of_char (c # cs))"
  from "2.prems" have n: "0 < ?n" and v: "valid_bytes (drop (?n - 1) (map of_char cs))"
    using valid_bytes_width [of "of_char c" "map of_char cs"] by simp_all
  from v have "valid_bytes (map of_char (drop (?n - 1) cs))" by (simp add: drop_map)
  with "2.IH"(2) [OF refl] n have "json_string (drop (?n - 1) cs) = drop (?n - 1) cs" by simp
  with n show ?case by (simp add: Let_def)
qed

text \<open>A string that is valid UTF-8 is written as it is.\<close>

lemma json_string_valid: "utf8_ValidString s \<Longrightarrow> json_string s = s"
  by (simp add: utf8_ValidString_def json_string_valid_bytes)

lemma json_string_valid_list:
  "\<forall>p\<in>set ps. utf8_ValidString p \<Longrightarrow> map json_string ps = ps"
  by (induction ps) (simp_all add: json_string_valid)

section \<open>Listing the packages\<close>

lemma HasSuffix_last:
  assumes "strings_HasSuffix s sfx" "sfx \<noteq> []"
  shows "last s = last sfx"
proof -
  from assms(1) obtain p where "s = p @ sfx" by (auto simp: HasSuffix_iff)
  with assms(2) show ?thesis by simp
qed

lemma temporary_not_listed:
  assumes "strings_HasSuffix n ''.tmp'' \<or> (\<exists>d. n = ''newshard'' @ d \<and> set d \<subseteq> set ''0123456789'')"
  shows "\<not> strings_HasSuffix n ''.idx''"
proof
  assume "strings_HasSuffix n ''.idx''"
  then have x: "last n = CHR ''x''"
    by (simp add: HasSuffix_last)
  from assms show False
  proof
    assume "strings_HasSuffix n ''.tmp''"
    then have "last n = CHR ''p''" by (simp add: HasSuffix_last)
    with x show False by simp
  next
    assume "\<exists>d. n = ''newshard'' @ d \<and> set d \<subseteq> set ''0123456789''"
    then obtain d where d: "n = ''newshard'' @ d" "set d \<subseteq> set ''0123456789''" by blast
    show False
    proof (cases "d = []")
      case True
      with d x show False by simp
    next
      case False
      with d(1) have "last n = last d" by simp
      moreover from False have "last d \<in> set d" by simp
      ultimately have "last n \<in> set ''0123456789''" using d(2) by auto
      with x show False by simp
    qed
  qed
qed

lemma listed_set:
  "set (map (\<lambda>name. take (length name - length ''.idx'') name)
       (filter (\<lambda>name. strings_HasSuffix name ''.idx'' \<and> name \<noteq> ''full.idx'') names)) =
   {p. p @ ''.idx'' \<in> set names \<and> p @ ''.idx'' \<noteq> ''full.idx''}"
proof (intro set_eqI iffI)
  fix p
  assume "p \<in> set (map (\<lambda>name. take (length name - length ''.idx'') name)
       (filter (\<lambda>name. strings_HasSuffix name ''.idx'' \<and> name \<noteq> ''full.idx'') names))"
  then obtain n where n: "n \<in> set names" "strings_HasSuffix n ''.idx''" "n \<noteq> ''full.idx''"
    "p = take (length n - length ''.idx'') n"
    by auto
  from n(2) obtain q where "n = q @ ''.idx''" by (auto simp: HasSuffix_iff)
  with n show "p \<in> {p. p @ ''.idx'' \<in> set names \<and> p @ ''.idx'' \<noteq> ''full.idx''}"
    by simp
next
  fix p
  assume "p \<in> {p. p @ ''.idx'' \<in> set names \<and> p @ ''.idx'' \<noteq> ''full.idx''}"
  then have n: "p @ ''.idx'' \<in> set names" "p @ ''.idx'' \<noteq> ''full.idx''" by simp_all
  have "strings_HasSuffix (p @ ''.idx'') ''.idx''" by (auto simp: HasSuffix_iff)
  with n have "p @ ''.idx'' \<in> set (filter (\<lambda>name. strings_HasSuffix name ''.idx'' \<and> name \<noteq> ''full.idx'') names)"
    by simp
  then have "take (length (p @ ''.idx'') - length ''.idx'') (p @ ''.idx'') \<in>
     set (map (\<lambda>name. take (length name - length ''.idx'') name)
       (filter (\<lambda>name. strings_HasSuffix name ''.idx'' \<and> name \<noteq> ''full.idx'') names))"
    unfolding set_map by (rule imageI)
  then show "p \<in> set (map (\<lambda>name. take (length name - length ''.idx'') name)
       (filter (\<lambda>name. strings_HasSuffix name ''.idx'' \<and> name \<noteq> ''full.idx'') names))"
    by simp
qed

text \<open>
  Claim C5, as amended. \<^verbatim>\<open>GET /listpkgs\<close> answers 200 with the JSON object whose one
  member \<^verbatim>\<open>Packages\<close> is a list with one string for every name of the store that ends
  in \<^verbatim>\<open>.idx\<close> and is not \<^verbatim>\<open>full.idx\<close>, in directory order: the name with the suffix
  stripped and every byte that is not part of a valid UTF-8 encoding replaced by
  \<^verbatim>\<open>U+FFFD\<close>. The names so written are exactly the \<open>p\<close> for which \<open>p.idx\<close> is an
  entry of the store other than \<^verbatim>\<open>full.idx\<close>, and when they are valid UTF-8 the list
  holds these names themselves. An entry whose name ends in \<^verbatim>\<open>.tmp\<close>, or is
  \<^verbatim>\<open>newshard\<close> followed by decimal digits only, is never selected.
\<close>

theorem listPackages_reply:
  assumes "packageNames en (fs s) = Inr names"
  shows "\<exists>pkgs.
     listPackages en s =
       Inr \<lparr>status = 200,
            body = Document (JObject [(''Packages'',
                     JArray (map JString (map json_string pkgs)))])\<rparr>
     \<and> pkgs = map (\<lambda>name. take (length name - length ''.idx'') name)
                (filter (\<lambda>name. strings_HasSuffix name ''.idx'' \<and> name \<noteq> ''full.idx'') names)
     \<and> set pkgs = {p. p @ ''.idx'' \<in> set names \<and> p @ ''.idx'' \<noteq> ''full.idx''}
     \<and> ((\<forall>p\<in>set pkgs. utf8_ValidString p) \<longrightarrow> map json_string pkgs = pkgs)
     \<and> (\<forall>name. strings_HasSuffix name ''.tmp''
              \<or> (\<exists>d. name = ''newshard'' @ d \<and> set d \<subseteq> set ''0123456789'')
          \<longrightarrow> \<not> (strings_HasSuffix name ''.idx'' \<and> name \<noteq> ''full.idx''))"
proof -
  let ?pkgs = "map (\<lambda>name. take (length name - length ''.idx'') name)
                (filter (\<lambda>name. strings_HasSuffix name ''.idx'' \<and> name \<noteq> ''full.idx'') names)"
  have "listPackages en s =
       Inr \<lparr>status = 200,
            body = Document (JObject [(''Packages'',
                     JArray (map JString (map json_string ?pkgs)))])\<rparr>"
    using assms
    by (simp add: listPackages_def listPackages_loop_eq json_Marshal_def StatusOK_def)
  moreover have "set ?pkgs = {p. p @ ''.idx'' \<in> set names \<and> p @ ''.idx'' \<noteq> ''full.idx''}"
    by (rule listed_set)
  moreover have "(\<forall>p\<in>set ?pkgs. utf8_ValidString p) \<longrightarrow> map json_string ?pkgs = ?pkgs"
  proof
    assume "\<forall>p\<in>set ?pkgs. utf8_ValidString p"
    then show "map json_string ?pkgs = ?pkgs"
      by (rule json_string_valid_list)
  qed
  moreover have "\<forall>name. strings_HasSuffix name ''.tmp''
              \<or> (\<exists>d. name = ''newshard'' @ d \<and> set d \<subseteq> set ''0123456789'')
          \<longrightarrow> \<not> (strings_HasSuffix name ''.idx'' \<and> name \<noteq> ''full.idx'')"
    using temporary_not_listed by blast
  ultimately show ?thesis by blast
qed

theorem listPackages_reply_witness:
  "packageNames example_env
     (fs (state_of [((True, [''s'']), Dir), ((True, [''s'', ''a.idx'']), File (Shard [])),
                    ((True, [''s'', ''a.tmp'']), File (Shard [])),
                    ((True, [''s'', ''newshard1'']), File (Shard [])),
                    ((True, [''s'', ''full.idx'']), File (Shard []))])) =
     Inr [''a.idx'', ''a.tmp'', ''newshard1'', ''full.idx'']
   \<and> utf8_ValidString ''a''
   \<and> listPackages example_env
       (state_of [((True, [''s'']), Dir), ((True, [''s'', ''a.idx'']), File (Shard [])),
                    ((True, [''s'', ''a.tmp'']), File (Shard [])),
                    ((True, [''s'', ''newshard1'']), File (Shard [])),
                    ((True, [''s'', ''full.idx'']), File (Shard []))]) =
       Inr \<lparr>status = 200, body = Document (JObject [(''Packages'', JArray [JString ''a''])])\<rparr>"
proof -
  let ?s = "state_of [((True, [''s'']), Dir), ((True, [''s'', ''a.idx'']), File (Shard [])),
                    ((True, [''s'', ''a.tmp'']), File (Shard [])),
                    ((True, [''s'', ''newshard1'']), File (Shard [])),
                    ((True, [''s'', ''full.idx'']), File (Shard []))]"
  have n: "packageNames example_env (fs ?s) = Inr [''a.idx'', ''a.tmp'', ''newshard1'', ''full.idx'']"
    by code_simp
  have m: "map (\<lambda>name. take (length name - length ''.idx'') name)
                (filter (\<lambda>name. strings_HasSuffix name ''.idx'' \<and> name \<noteq> ''full.idx'')
                   [''a.idx'', ''a.tmp'', ''newshard1'', ''full.idx'']) = [''a'']"
    by code_simp
  have v: "utf8_ValidString ''a''" by code_simp
  from listPackages_reply [OF n] obtain pkgs where p:
    "listPackages example_env ?s =
       Inr \<lparr>status = 200,
            body = Document (JObject [(''Packages'',
                     JArray (map JString (map json_string pkgs)))])\<rparr>"
    "pkgs = map (\<lambda>name. take (length name - length ''.idx'') name)
                (filter (\<lambda>name. strings_HasSuffix name ''.idx'' \<and> name \<noteq> ''full.idx'')
                   [''a.idx'', ''a.tmp'', ''newshard1'', ''full.idx''])"
    "(\<forall>p\<in>set pkgs. utf8_ValidString p) \<longrightarrow> map json_string pkgs = pkgs"
    by blast
  from p(2) have pk: "pkgs = [''a'']" unfolding m .
  from p(3) v have "map json_string pkgs = pkgs" unfolding pk by simp
  with p(1) have "listPackages example_env ?s =
       Inr \<lparr>status = 200, body = Document (JObject [(''Packages'', JArray [JString ''a''])])\<rparr>"
    unfolding pk by simp
  with n v show ?thesis by (intro conjI)
qed

text \<open>
  The claim as stated fails. A package whose own name starts with \<^verbatim>\<open>newshard\<close> is listed
  like any other; and for an entry whose name is not valid UTF-8 the list holds a name,
  with \<^verbatim>\<open>U+FFFD\<close> in it, for which the store has no entry.
\<close>

theorem listPackages_newshard_counterexample:
  "listPackages example_env
     (state_of [((True, [''s'']), Dir), ((True, [''s'', ''newshard1.idx'']), File (Shard []))]) =
   Inr \<lparr>status = 200,
        body = Document (JObject [(''Packages'', JArray [JString ''newshard1''])])\<rparr>
   \<and> strings_HasPrefix ''newshard1'' ''newshard''
   \<and> packageNames example_env
       (fs (state_of [((True, [''s'']), Dir),
                      ((True, [''s'', [CHR 0xEE] @ ''.idx'']), File (Shard []))])) =
     Inr [[CHR 0xEE] @ ''.idx'']
   \<and> listPackages example_env
       (state_of [((True, [''s'']), Dir),
                  ((True, [''s'', [CHR 0xEE] @ ''.idx'']), File (Shard []))]) =
     Inr \<lparr>status = 200,
          body = Document (JObject [(''Packages'',
                   JArray [JString [CHR 0xEF, CHR 0xBF, CHR 0xBD]])])\<rparr>
   \<and> [CHR 0xEF, CHR 0xBF, CHR 0xBD] @ ''.idx'' \<noteq> [CHR 0xEE] @ ''.idx''"
  by code_simp

section \<open>Garbage collection of an unknown package\<close>

lemma garbageCollect_rejects:
  assumes "packageNames en (fs s) = Inr names"
    and "pkg \<notin> set names \<or> strings_HasSuffix pkg ''.idx''"
  shows "garbageCollect en pkg s =
     Inr (\<lparr>status = 500,
           body = Line (Msg (if pkg = [] then ''No ?package= provided'' else ''No such package'') [])\<rparr>,
          s)"
  using assms
  by (auto simp: garbageCollect_def gc_found_iff http_Error_def StatusInternalServerError_def)

text \<open>
  Claim C3, as amended. \<^verbatim>\<open>POST /garbagecollect?package=pkg\<close> fails with status 500 when
  the store has no entry named exactly \<open>pkg\<close>, and also whenever \<open>pkg\<close> ends in \<^verbatim>\<open>.idx\<close>;
  an entry \<open>pkg.idx\<close> does not count. In this case it returns with the state of the
  process, the file system included, as it was.
\<close>

theorem garbageCollect_not_found:
  assumes "packageNames en (fs s) = Inr names"
    and "pkg \<notin> set names \<or> strings_HasSuffix pkg ''.idx''"
  shows "\<exists>m. garbageCollect en pkg s = Inr (\<lparr>status = 500, body = Line m\<rparr>, s)"
  using garbageCollect_rejects [OF assms] by blast

theorem garbageCollect_not_found_witness:
  "packageNames example_env
     (fs (state_of [((True, [''s'']), Dir), ((True, [''s'', ''foo.idx'']), File (Shard []))])) =
     Inr [''foo.idx'']
   \<and> ''foo'' \<notin> set [''foo.idx'']
   \<and> (\<exists>m. garbageCollect example_env ''foo''
          (state_of [((True, [''s'']), Dir), ((True, [''s'', ''foo.idx'']), File (Shard []))]) =
        Inr (\<lparr>status = 500, body = Line m\<rparr>,
             state_of [((True, [''s'']), Dir), ((True, [''s'', ''foo.idx'']), File (Shard []))]))"
proof -
  let ?s = "state_of [((True, [''s'']), Dir), ((True, [''s'', ''foo.idx'']), File (Shard []))]"
  have n: "packageNames example_env (fs ?s) = Inr [''foo.idx'']"
    by code_simp
  have a: "''foo'' \<notin> set [''foo.idx'']"
    by simp
  then have "''foo'' \<notin> set [''foo.idx''] \<or> strings_HasSuffix ''foo'' ''.idx''" ..
  from garbageCollect_not_found [OF n this] n a show ?thesis by (intro conjI)
qed

text \<open>
  The claim as stated fails: with only \<^verbatim>\<open>foo.idx\<close> in the store, the request for
  \<^verbatim>\<open>foo\<close> is answered 500 \<^verbatim>\<open>No such package\<close>.
\<close>

theorem garbageCollect_idx_only_counterexample:
  "garbageCollect example_env ''foo''
     (state_of [((True, [''s'']), Dir), ((True, [''s'', ''foo.idx'']), File (Shard []))]) =
   Inr (\<lparr>status = 500, body = Line (Msg ''No such package'' [])\<rparr>,
        state_of [((True, [''s'']), Dir), ((True, [''s'', ''foo.idx'']), File (Shard []))])"
  by code_simp

section \<open>Garbage collection of a package of the store\<close>

lemma os_RemoveAll_confined:
  assumes "os_RemoveAll flt gone p f = (e, f')"
  shows "set f' \<subseteq> set f"
    and "(q, n) \<in> set f \<Longrightarrow> q \<noteq> fs_key p \<Longrightarrow> \<not> below (fs_key p) q \<Longrightarrow> (q, n) \<in> set f'"
  using assms by (auto simp: os_RemoveAll_def Let_def split: if_splits)

lemma os_RemoveAll_ok:
  "\<not> flt SysRemoveAll p \<Longrightarrow>
   os_RemoveAll flt gone p f =
     (None, filter (\<lambda>(q, _). \<not> (q = fs_key p \<or> below (fs_key p) q)) f)"
  by (simp add: os_RemoveAll_def Let_def)

lemma os_Remove_confined:
  assumes "os_Remove flt p f = Inr f'"
  shows "set f' \<subseteq> set f"
    and "(q, n) \<in> set f \<Longrightarrow> q \<noteq> fs_key p \<Longrightarrow> (q, n) \<in> set f'"
  using assms by (auto simp: os_Remove_def Let_def split: if_splits option.splits)

lemma os_Remove_absent:
  assumes "fs_key p \<notin> fst ` set f"
  shows "\<exists>err. os_Remove flt p f = Inl err"
proof -
  from assms have "map_of f (fs_key p) = None"
    by (simp add: map_of_eq_None_iff)
  then show ?thesis by (simp add: os_Remove_def Let_def)
qed

lemma fs_key_store_entry:
  assumes "valid_name n"
  shows "fs_key (filepath_Join [d, n]) = (fst (fs_key d), snd (fs_key d) @ [n])"
  using fs_key_Join [OF assms] by (simp add: fs_key_def)

lemma garbageCollect_found:
  assumes "packageNames en (fs s) = Inr names" "pkg \<in> set names"
    "\<not> strings_HasSuffix pkg ''.idx''" "pkg \<noteq> []"
  shows "garbageCollect en pkg s =
     (case os_RemoveAll (faults en) (removed_on_failure en)
             (filepath_Join [unpackedPath en, pkg]) (fs s) of
        (Some err, fs1) \<Rightarrow>
          Inr (http_Error (Msg ''Could not garbage collect package %q: %v'' [S pkg, E err])
                 StatusInternalServerError,
               s\<lparr>fs := fs1\<rparr>)
      | (None, fs1) \<Rightarrow>
          (case os_Remove (faults en)
                  (filepath_Join [unpackedPath en, pkg @ ''.idx'']) fs1 of
             Inl err \<Rightarrow>
               Inr (http_Error
                      (Msg ''Could not garbage collect package index for %q: %v''
                         [S pkg, E err])
                      StatusInternalServerError,
                    s\<lparr>fs := fs1\<rparr>)
           | Inr fs2 \<Rightarrow>
               Inr (\<lparr>status = StatusOK, body = Empty\<rparr>,
                    s\<lparr>fs := fs2,
                      successfulGarbageCollects := successfulGarbageCollects s + 1\<rparr>)))"
  using assms by (simp add: garbageCollect_def gc_found_iff)

text \<open>
  Claim C9. When the store has an entry named exactly \<open>pkg\<close> (a name not ending in
  \<^verbatim>\<open>.idx\<close>) and none named \<open>pkg.idx\<close>, and \<^verbatim>\<open>os.RemoveAll\<close> does its work,
  \<^verbatim>\<open>POST /garbagecollect?package=pkg\<close> removes the entry \<open>pkg\<close> of the store with
  everything below it, then answers 500; the counter of successful garbage collections is
  as before, and the removal stays.
\<close>

theorem garbageCollect_unindexed:
  assumes "wf_fs (fs s)" and "packageNames en (fs s) = Inr names"
    and "pkg \<in> set names" and "\<not> strings_HasSuffix pkg ''.idx''"
    and "pkg @ ''.idx'' \<notin> set names"
    and "\<not> faults en SysRemoveAll (filepath_Join [unpackedPath en, pkg])"
  shows "\<exists>m s'.
     garbageCollect en pkg s = Inr (\<lparr>status = 500, body = Line m\<rparr>, s')
     \<and> fs s' = filter (\<lambda>(q, _). \<not> (q = fs_key (filepath_Join [unpackedPath en, pkg])
                                   \<or> below (fs_key (filepath_Join [unpackedPath en, pkg])) q))
                 (fs s)
     \<and> fs_key (filepath_Join [unpackedPath en, pkg]) =
         (fst (fs_key (unpackedPath en)), snd (fs_key (unpackedPath en)) @ [pkg])
     \<and> successfulGarbageCollects s' = successfulGarbageCollects s"
proof -
  let ?K = "fs_key (unpackedPath en)"
  let ?p = "filepath_Join [unpackedPath en, pkg]"
  let ?i = "filepath_Join [unpackedPath en, pkg @ ''.idx'']"
  let ?f1 = "filter (\<lambda>(q, _). \<not> (q = fs_key ?p \<or> below (fs_key ?p) q)) (fs s)"
  from assms(2,3) have names: "names = dir_names (fs s) ?K"
    using packageNames_cases by fastforce
  with assms(1,3) have valid: "valid_name pkg"
    by (auto intro: wf_fs_dir_names)
  then have nonempty: "pkg \<noteq> []" by (simp add: valid_name_def)
  have kp: "fs_key ?p = (fst ?K, snd ?K @ [pkg])"
    using valid by (rule fs_key_store_entry)
  have ki: "fs_key ?i = (fst ?K, snd ?K @ [pkg @ ''.idx''])"
    using valid by (intro fs_key_store_entry valid_name_idx)
  from assms(5) names have "fs_key ?i \<notin> fst ` set (fs s)"
    by (simp add: dir_names_iff ki)
  then have "fs_key ?i \<notin> fst ` set ?f1" by auto
  then obtain err where err: "os_Remove (faults en) ?i ?f1 = Inl err"
    using os_Remove_absent by blast
  have "garbageCollect en pkg s =
      Inr (http_Error (Msg ''Could not garbage collect package index for %q: %v'' [S pkg, E err])
             StatusInternalServerError, s\<lparr>fs := ?f1\<rparr>)"
    using assms(6) err
    by (simp add: garbageCollect_found [OF assms(2,3,4) nonempty] os_RemoveAll_ok)
  then have "garbageCollect en pkg s =
      Inr (\<lparr>status = 500,
            body = Line (Msg ''Could not garbage collect package index for %q: %v'' [S pkg, E err])\<rparr>,
           s\<lparr>fs := ?f1\<rparr>)"
    by (simp add: http_Error_def StatusInternalServerError_def)
  moreover have "fs (s\<lparr>fs := ?f1\<rparr>) = ?f1" by simp
  moreover have "successfulGarbageCollects (s\<lparr>fs := ?f1\<rparr>) = successfulGarbageCollects s"
    by simp
  ultimately show ?thesis using kp by blast
qed

theorem garbageCollect_unindexed_witness:
  "wf_fs (fs (state_of [((True, [''s'']), Dir), ((True, [''s'', ''foo'']), Dir),
                        ((True, [''s'', ''foo'', ''a'']), File (Bytes ''x'')),
                        ((True, [''s'', ''bar.idx'']), File (Shard []))]))
   \<and> packageNames example_env
        (fs (state_of [((True, [''s'']), Dir), ((True, [''s'', ''foo'']), Dir),
                        ((True, [''s'', ''foo'', ''a'']), File (Bytes ''x'')),
                        ((True, [''s'', ''bar.idx'']), File (Shard []))])) =
       Inr [''foo'', ''bar.idx'']
   \<and> (\<exists>m s'. garbageCollect example_env ''foo''
          (state_of [((True, [''s'']), Dir), ((True, [''s'', ''foo'']), Dir),
                        ((True, [''s'', ''foo'', ''a'']), File (Bytes ''x'')),
                        ((True, [''s'', ''bar.idx'']), File (Shard []))]) =
          Inr (\<lparr>status = 500, body = Line m\<rparr>, s')
        \<and> fs s' = [((True, [''s'']), Dir), ((True, [''s'', ''bar.idx'']), File (Shard []))]
        \<and> successfulGarbageCollects s' = 0)"
proof -
  let ?s = "state_of [((True, [''s'']), Dir), ((True, [''s'', ''foo'']), Dir),
                        ((True, [''s'', ''foo'', ''a'']), File (Bytes ''x'')),
                        ((True, [''s'', ''bar.idx'']), File (Shard []))]"
  have wf: "wf_fs (fs ?s)" by code_simp
  have n: "packageNames example_env (fs ?s) = Inr [''foo'', ''bar.idx'']" by code_simp
  have a: "''foo'' \<in> set [''foo'', ''bar.idx'']" by simp
  have b: "\<not> strings_HasSuffix ''foo'' ''.idx''" by code_simp
  have c: "''foo'' @ ''.idx'' \<notin> set [''foo'', ''bar.idx'']" by simp
  have d: "\<not> faults example_env SysRemoveAll (filepath_Join [unpackedPath example_env, ''foo''])"
    by (simp add: example_env_def)
  have e: "filter (\<lambda>(q, _). \<not> (q = fs_key (filepath_Join [unpackedPath example_env, ''foo''])
                        \<or> below (fs_key (filepath_Join [unpackedPath example_env, ''foo''])) q))
             (fs ?s) =
           [((True, [''s'']), Dir), ((True, [''s'', ''bar.idx'']), File (Shard []))]"
    by code_simp
  have f: "successfulGarbageCollects ?s = 0" by (simp add: state_of_def)
  from garbageCollect_unindexed [OF wf n a b c d] obtain m s' where
    "garbageCollect example_env ''foo'' ?s = Inr (\<lparr>status = 500, body = Line m\<rparr>, s')"
    "fs s' = [((True, [''s'']), Dir), ((True, [''s'', ''bar.idx'']), File (Shard []))]"
    "successfulGarbageCollects s' = 0"
    unfolding e f by blast
  then have "\<exists>m s'. garbageCollect example_env ''foo'' ?s =
          Inr (\<lparr>status = 500, body = Line m\<rparr>, s')
        \<and> fs s' = [((True, [''s'']), Dir), ((True, [''s'', ''bar.idx'']), File (Shard []))]
        \<and> successfulGarbageCollects s' = 0"
    by blast
  with wf n show ?thesis by (intro conjI)
qed

lemma garbageCollect_cases:
  assumes "garbageCollect en pkg s = Inr (resp, s')"
  shows "(status resp = 500 \<and> s' = s)
     \<or> (\<exists>names e f1 f2.
           packageNames en (fs s) = Inr names \<and> pkg \<in> set names \<and> pkg \<noteq> []
           \<and> os_RemoveAll (faults en) (removed_on_failure en)
                (filepath_Join [unpackedPath en, pkg]) (fs s) = (e, f1)
           \<and> (fs s' = f1
              \<or> os_Remove (faults en) (filepath_Join [unpackedPath en, pkg @ ''.idx'']) f1 = Inr f2
                \<and> fs s' = f2))"
proof (cases "pkg = []")
  case True
  then have "garbageCollect en pkg s =
      Inr (http_Error (Msg ''No ?package= provided'' []) StatusInternalServerError, s)"
    by (simp add: garbageCollect_def)
  with assms have "resp = http_Error (Msg ''No ?package= provided'' []) StatusInternalServerError"
    and "s' = s" by simp_all
  then show ?thesis
    by (simp add: http_Error_def StatusInternalServerError_def)
next
  case False
  show ?thesis
  proof (cases "packageNames en (fs s)")
    case (Inl e)
    with False have "garbageCollect en pkg s = Inl e"
      by (simp add: garbageCollect_def)
    with assms show ?thesis by simp
  next
    case (Inr names)
    show ?thesis
    proof (cases "gc_found pkg names")
      case nf: False
      with False Inr have "garbageCollect en pkg s =
          Inr (http_Error (Msg ''No such package'' []) StatusInternalServerError, s)"
        by (simp add: garbageCollect_def)
      with assms have "resp = http_Error (Msg ''No such package'' []) StatusInternalServerError"
        and "s' = s" by simp_all
      then show ?thesis
        by (simp add: http_Error_def StatusInternalServerError_def)
    next
      case True
      then have found: "pkg \<in> set names" "\<not> strings_HasSuffix pkg ''.idx''"
        by (simp_all add: gc_found_iff)
      obtain e f1 where ra: "os_RemoveAll (faults en) (removed_on_failure en)
                  (filepath_Join [unpackedPath en, pkg]) (fs s) = (e, f1)"
        by fastforce
      have "fs s' = f1
          \<or> (\<exists>f2. os_Remove (faults en) (filepath_Join [unpackedPath en, pkg @ ''.idx'']) f1 = Inr f2
                  \<and> fs s' = f2)"
      proof (cases e)
        case (Some err)
        with assms show ?thesis
          unfolding garbageCollect_found [OF Inr found False] ra by auto
      next
        case None
        show ?thesis
        proof (cases "os_Remove (faults en) (filepath_Join [unpackedPath en, pkg @ ''.idx'']) f1")
          case (Inl err)
          with assms None show ?thesis
            unfolding garbageCollect_found [OF Inr found False] ra by auto
        next
          case (Inr f2)
          with assms None show ?thesis
            unfolding garbageCollect_found [OF \<open>packageNames en (fs s) = Inr names\<close> found False] ra
            by auto
        qed
      qed
      with Inr found(1) False ra show ?thesis by blast
    qed
  qed
qed

text \<open>
  Claim C10. In a well-formed file system, \<^verbatim>\<open>POST /garbagecollect\<close> with a parameter
  that contains a separator is answered 500 and changes nothing; the file system changes
  only when the parameter is one of the names found by listing the store; and whatever
  the request removes lies below the store: nothing is added, and every file that is not
  below the store stays as it is.
\<close>

theorem garbageCollect_confined:
  assumes "wf_fs (fs s)" and "garbageCollect en pkg s = Inr (resp, s')"
  shows "(CHR ''/'' \<in> set pkg \<longrightarrow> status resp = 500 \<and> s' = s)
     \<and> (fs s' \<noteq> fs s \<longrightarrow> pkg \<in> set (dir_names (fs s) (fs_key (unpackedPath en))))
     \<and> set (fs s') \<subseteq> set (fs s)
     \<and> (\<forall>q n. (q, n) \<in> set (fs s) \<and> \<not> below (fs_key (unpackedPath en)) q
           \<longrightarrow> (q, n) \<in> set (fs s'))"
proof -
  let ?K = "fs_key (unpackedPath en)"
  let ?p = "filepath_Join [unpackedPath en, pkg]"
  let ?i = "filepath_Join [unpackedPath en, pkg @ ''.idx'']"
  from garbageCollect_cases [OF assms(2)] consider
    (unchanged) "status resp = 500" "s' = s"
    | (found) names e f1 f2 where
        "packageNames en (fs s) = Inr names" "pkg \<in> set names"
        "os_RemoveAll (faults en) (removed_on_failure en) ?p (fs s) = (e, f1)"
        "fs s' = f1 \<or> os_Remove (faults en) ?i f1 = Inr f2 \<and> fs s' = f2"
    by blast
  then show ?thesis
  proof cases
    case unchanged
    then show ?thesis by simp
  next
    case found
    note names = found(1) and mem = found(2) and ra = found(3) and rest = found(4)
    from names mem have listed: "pkg \<in> set (dir_names (fs s) ?K)"
      using packageNames_cases by fastforce
    with assms(1) have valid: "valid_name pkg"
      by (rule wf_fs_dir_names)
    have kp: "fs_key ?p = (fst ?K, snd ?K @ [pkg])"
      using valid by (rule fs_key_store_entry)
    have ki: "fs_key ?i = (fst ?K, snd ?K @ [pkg @ ''.idx''])"
      using valid by (intro fs_key_store_entry valid_name_idx)
    have bp: "below ?K (fs_key ?p)" unfolding kp by (rule below_snoc)
    have bi: "below ?K (fs_key ?i)" unfolding ki by (rule below_snoc)
    have sub1: "set f1 \<subseteq> set (fs s)"
      using ra by (rule os_RemoveAll_confined)
    have keep1: "(q, n) \<in> set f1" if "(q, n) \<in> set (fs s)" "\<not> below ?K q" for q n
    proof -
      from that(2) bp have "q \<noteq> fs_key ?p" by auto
      moreover from that(2) bp have "\<not> below (fs_key ?p) q"
        using below_trans by blast
      ultimately show ?thesis by (rule os_RemoveAll_confined(2) [OF ra that(1)])
    qed
    have sub: "set (fs s') \<subseteq> set (fs s)"
      using rest sub1 os_Remove_confined(1) by blast
    have keep: "(q, n) \<in> set (fs s')" if "(q, n) \<in> set (fs s)" "\<not> below ?K q" for q n
    proof -
      from that have in1: "(q, n) \<in> set f1" by (rule keep1)
      from that(2) bi have "q \<noteq> fs_key ?i" by auto
      with rest in1 show ?thesis
        by (auto intro: os_Remove_confined(2))
    qed
    from valid have "CHR ''/'' \<notin> set pkg" by (simp add: valid_name_def)
    with listed sub keep show ?thesis by blast
  qed
qed

theorem garbageCollect_confined_witness:
  "wf_fs (fs (state_of [((True, [''s'']), Dir), ((True, [''s'', ''x'']), Dir),
                        ((True, [''x'']), File (Bytes ''keep''))]))
   \<and> garbageCollect example_env ''../x''
        (state_of [((True, [''s'']), Dir), ((True, [''s'', ''x'']), Dir),
                   ((True, [''x'']), File (Bytes ''keep''))]) =
       Inr (\<lparr>status = 500, body = Line (Msg ''No such package'' [])\<rparr>,
            state_of [((True, [''s'']), Dir), ((True, [''s'', ''x'']), Dir),
                      ((True, [''x'']), File (Bytes ''keep''))])
   \<and> CHR ''/'' \<in> set ''../x''
   \<and> ((True, [''x'']), File (Bytes ''keep'')) \<in>
        set (fs (state_of [((True, [''s'']), Dir), ((True, [''s'', ''x'']), Dir),
                           ((True, [''x'']), File (Bytes ''keep''))]))"
proof -
  let ?s = "state_of [((True, [''s'']), Dir), ((True, [''s'', ''x'']), Dir),
                        ((True, [''x'']), File (Bytes ''keep''))]"
  have wf: "wf_fs (fs ?s)" by code_simp
  have g: "garbageCollect example_env ''../x'' ?s =
       Inr (\<lparr>status = 500, body = Line (Msg ''No such package'' [])\<rparr>, ?s)"
    by code_simp
  have sl: "CHR ''/'' \<in> set ''../x''" by simp
  have nb: "\<not> below (fs_key (unpackedPath example_env)) (True, [''x''])"
    by code_simp
  have mem: "((True, [''x'']), File (Bytes ''keep'')) \<in> set (fs ?s)"
    by (simp add: state_of_def)
  note c = garbageCollect_confined [OF wf g, THEN conjunct2, THEN conjunct2, THEN conjunct2]
  from c [rule_format, OF conjI, OF mem nb]
  have "((True, [''x'']), File (Bytes ''keep'')) \<in> set (fs ?s)" .
  with wf g sl show ?thesis by (intro conjI)
qed

section \<open>Temporary files and base names\<close>

lemma mergeToShard_loop_eq:
  "mergeToShard_loop en names =
     map (\<lambda>name. filepath_Join [unpackedPath en, name])
       (filter (\<lambda>name. strings_HasSuffix name ''.idx'' \<and> name \<noteq> ''full.idx'') names)"
proof -
  have "foldl (\<lambda>indexFiles name.
        if strings_HasSuffix name ''.idx'' \<and> name \<noteq> ''full.idx''
        then indexFiles @ [filepath_Join [unpackedPath en, name]]
        else indexFiles) acc names =
     acc @ map (\<lambda>name. filepath_Join [unpackedPath en, name])
       (filter (\<lambda>name. strings_HasSuffix name ''.idx'' \<and> name \<noteq> ''full.idx'') names)" for acc
    by (induction names arbitrary: acc) simp_all
  then show ?thesis by (simp add: mergeToShard_loop_def)
qed







lemma join_sep_snoc:
  "join_sep (st @ [n]) = (if st = [] then n else join_sep st @ CHR ''/'' # n)"
  by (induction st rule: join_sep.induct) simp_all



lemma Join_render:
  assumes "valid_name n"
  shows "filepath_Join [d, n] = render (is_rooted d) (path_elems d @ [n])"
proof (cases "d = []")
  case True
  from assms have "split_sep n = [n]"
    by (intro split_sep_no_sep) (simp add: valid_name_def)
  moreover from assms have "\<not> is_rooted n"
    by (cases n) (auto simp: valid_name_def is_rooted_def)
  moreover from assms have "n \<noteq> []" by (simp add: valid_name_def)
  ultimately have "filepath_Join [d, n] = render False [n]"
    using True assms
    by (simp add: filepath_Join_def filepath_Clean_def path_elems_def clean_elem_valid)
  with True show ?thesis
    by (simp add: is_rooted_def)
next
  case False
  then have r: "is_rooted (d @ CHR ''/'' # n) = is_rooted d"
    by (cases d) (simp_all add: is_rooted_def)
  from assms have "split_sep (d @ CHR ''/'' # n) = split_sep d @ [n]"
    by (intro split_sep_snoc) (simp add: valid_name_def)
  then have "path_elems (d @ CHR ''/'' # n) = path_elems d @ [n]"
    using assms by (simp add: path_elems_def r clean_elem_valid)
  with False r show ?thesis
    by (simp add: filepath_Join_def filepath_Clean_def)
qed


lemma map_of_fs_put: "map_of (fs_put k n f) k' = (if k' = k then Some n else map_of f k')"
  by (induction f) auto

lemma node_at_fs_put:
  "node_at (fs_put k n f) k' = (if snd k' = [] then Some Dir else if k' = k then Some n else map_of f k')"
  by (simp add: node_at_def map_of_fs_put)




section \<open>The merge: enumeration and threshold\<close>

lemma StopCPUProfile_gauge [simp]:
  "filesInIndex (StopCPUProfile en s) = filesInIndex s"
  by (simp add: StopCPUProfile_def)

lemma mergeToShard_gauge:
  assumes "packageNames en (fs s) = Inr names" "mergeToShard en s = Inr s'"
  shows "filesInIndex s' = length (mergeToShard_loop en names)"
  using assms
  by (auto simp: mergeToShard_def Let_def
      split: sum.splits if_splits option.splits prod.splits)

lemma mergeToShard_few:
  assumes "packageNames en (fs s) = Inr names" "length (mergeToShard_loop en names) < 2"
  shows "mergeToShard en s = Inr (s\<lparr>filesInIndex := length (mergeToShard_loop en names)\<rparr>)"
  using assms by (simp add: mergeToShard_def Let_def)

text \<open>
  Claim C6. A merge run collects, from the names found by listing the store, exactly
  those that end in \<^verbatim>\<open>.idx\<close> and are not \<^verbatim>\<open>full.idx\<close> (each joined to the store's path),
  and a run that returns has set the gauge to their number. With fewer than two of them
  it returns with nothing but the gauge changed: the file system is as before (no
  temporary file, no shard) and no call has gone to the backend.
\<close>

theorem mergeToShard_enumerates:
  assumes "packageNames en (fs s) = Inr names"
  shows "mergeToShard_loop en names =
       map (\<lambda>n. filepath_Join [unpackedPath en, n])
         (filter (\<lambda>n. strings_HasSuffix n ''.idx'' \<and> n \<noteq> ''full.idx'') names)
     \<and> (\<forall>s'. mergeToShard en s = Inr s' \<longrightarrow>
          filesInIndex s' =
            length (filter (\<lambda>n. strings_HasSuffix n ''.idx'' \<and> n \<noteq> ''full.idx'') names))
     \<and> (length (filter (\<lambda>n. strings_HasSuffix n ''.idx'' \<and> n \<noteq> ''full.idx'') names) < 2 \<longrightarrow>
          mergeToShard en s =
            Inr (s\<lparr>filesInIndex :=
                     length (filter (\<lambda>n. strings_HasSuffix n ''.idx'' \<and> n \<noteq> ''full.idx'')
                               names)\<rparr>))"
proof -
  let ?sel = "filter (\<lambda>n. strings_HasSuffix n ''.idx'' \<and> n \<noteq> ''full.idx'') names"
  have len: "length (mergeToShard_loop en names) = length ?sel"
    by (simp add: mergeToShard_loop_eq)
  have "mergeToShard_loop en names = map (\<lambda>n. filepath_Join [unpackedPath en, n]) ?sel"
    by (rule mergeToShard_loop_eq)
  moreover have "\<forall>s'. mergeToShard en s = Inr s' \<longrightarrow> filesInIndex s' = length ?sel"
    using mergeToShard_gauge [OF assms] len by simp
  moreover have "length ?sel < 2 \<longrightarrow>
      mergeToShard en s = Inr (s\<lparr>filesInIndex := length ?sel\<rparr>)"
    using mergeToShard_few [OF assms] len by simp
  ultimately show ?thesis by (intro conjI)
qed

theorem mergeToShard_enumerates_witness:
  "packageNames example_env
     (fs (state_of [((True, [''s'']), Dir), ((True, [''s'', ''a.idx'']), File (Shard [''a/x''])),
                    ((True, [''s'', ''a'']), Dir),
                    ((True, [''s'', ''full.idx'']), File (Shard [''old'']))])) =
     Inr [''a.idx'', ''a'', ''full.idx'']
   \<and> length (filter (\<lambda>n. strings_HasSuffix n ''.idx'' \<and> n \<noteq> ''full.idx'')
               [''a.idx'', ''a'', ''full.idx'']) = 1
   \<and> mergeToShard example_env
        (state_of [((True, [''s'']), Dir), ((True, [''s'', ''a.idx'']), File (Shard [''a/x''])),
                   ((True, [''s'', ''a'']), Dir),
                   ((True, [''s'', ''full.idx'']), File (Shard [''old'']))]) =
       Inr ((state_of [((True, [''s'']), Dir), ((True, [''s'', ''a.idx'']), File (Shard [''a/x''])),
                       ((True, [''s'', ''a'']), Dir),
                       ((True, [''s'', ''full.idx'']), File (Shard [''old'']))])
              \<lparr>filesInIndex := 1\<rparr>)"
proof -
  let ?s = "state_of [((True, [''s'']), Dir), ((True, [''s'', ''a.idx'']), File (Shard [''a/x''])),
                    ((True, [''s'', ''a'']), Dir),
                    ((True, [''s'', ''full.idx'']), File (Shard [''old'']))]"
  have n: "packageNames example_env (fs ?s) = Inr [''a.idx'', ''a'', ''full.idx'']"
    by code_simp
  have l: "length (filter (\<lambda>n. strings_HasSuffix n ''.idx'' \<and> n \<noteq> ''full.idx'')
               [''a.idx'', ''a'', ''full.idx'']) = 1"
    by code_simp
  note t = mergeToShard_enumerates [OF n, THEN conjunct2, THEN conjunct2]
  have "mergeToShard example_env ?s = Inr (?s\<lparr>filesInIndex := 1\<rparr>)"
    using t unfolding l by simp
  with n l show ?thesis by (intro conjI)
qed

section \<open>The merge: publication\<close>







text \<open>
  Claim C7 fails on the code. With two shards and no \<^verbatim>\<open>full.idx\<close> the merge completes:
  the merged shard is published as \<^verbatim>\<open>full.idx\<close>. The counter of successful merges is
  still 0: the run returns before the increment.
\<close>

theorem mergeToShard_bootstrap_not_counted:
  "mergeToShard example_env
     (state_of [((True, [''s'']), Dir),
                ((True, [''s'', ''a.idx'']), File (Shard [''a/x''])),
                ((True, [''s'', ''b.idx'']), File (Shard [''b/y'']))]) =
   Inr \<lparr>fs = [((True, [''s'']), Dir),
              ((True, [''s'', ''a.idx'']), File (Shard [''a/x''])),
              ((True, [''s'', ''b.idx'']), File (Shard [''b/y''])),
              ((True, [''s'', ''full.idx'']), File (Shard [''a/x'', ''b/y'']))],
        successfulGarbageCollects = 0, successfulMerges = 0,
        successfulPackageIndexes = 0, filesInIndex = 2, rpcs = []\<rparr>"
  by code_simp

section \<open>The walk keeps index and store together\<close>

text \<open>What the function given to the walk can have done when it returns.\<close>

lemma walkFn_cases:
  assumes "walkFn en n path fi content st = Inr (r, d, st')"
  shows "st' = st
     \<or> (\<exists>f1 f2 i. \<not> d \<and> fi = Some i \<and> IsRegular (Mode i) \<and> utf8_ValidString path
           \<and> \<not> AddFile_fails en path (drop n path) content
           \<and> os_MkdirAll (faults en)
                (filepath_Dir (filepath_Join [unpackedPath en, drop n path])) (store st) = Inr f1
           \<and> os_Create (faults en) (filepath_Join [unpackedPath en, drop n path]) f1 = Inr f2
           \<and> st' = st\<lparr>index := index st @ [drop n path],
                       store := write_file (filepath_Join [unpackedPath en, drop n path])
                                  (Bytes content) f2,
                       copied := copied st @ [filepath_Join [unpackedPath en, drop n path]]\<rparr>)"
  using assms
  by (auto simp: walkFn_def AddFile_def Let_def split: prod.splits if_splits option.splits sum.splits)

lemma mkdir_all_keeps:
  "mkdir_all r pre cs f = Inr f' \<Longrightarrow> map_of f k = Some nd \<Longrightarrow> map_of f' k = Some nd"
proof (induction cs arbitrary: pre f)
  case Nil
  then show ?case by simp
next
  case (Cons c cs)
  show ?case
  proof (cases "map_of f (r, pre @ [c])")
    case None
    with Cons.prems(1) have "mkdir_all r (pre @ [c]) cs (f @ [((r, pre @ [c]), Dir)]) = Inr f'"
      by simp
    moreover from Cons.prems(2) have "map_of (f @ [((r, pre @ [c]), Dir)]) k = Some nd"
      by (simp add: map_add_def)
    ultimately show ?thesis by (rule Cons.IH)
  next
    case (Some m)
    show ?thesis
    proof (cases m)
      case (File x)
      with Some Cons.prems(1) show ?thesis by simp
    next
      case Dir
      with Some Cons.prems(1) have "mkdir_all r (pre @ [c]) cs f = Inr f'" by simp
      then show ?thesis using Cons.prems(2) by (rule Cons.IH)
    qed
  qed
qed

lemma os_MkdirAll_keeps:
  "os_MkdirAll flt p f = Inr f' \<Longrightarrow> map_of f k = Some nd \<Longrightarrow> map_of f' k = Some nd"
  by (auto simp: os_MkdirAll_def split: if_splits intro: mkdir_all_keeps)

lemma os_Create_map_of:
  assumes "os_Create flt p f = Inr f'"
  shows "map_of f' k = (if k = fs_key p then Some (File (Bytes [])) else map_of f k)"
  using assms
  by (auto simp: os_Create_def open_create_def Let_def map_of_fs_put
      split: if_splits option.splits node.splits)

lemma write_file_map_of:
  "map_of (write_file p c f) k = (if k = fs_key p then Some (File c) else map_of f k)"
  by (simp add: write_file_def map_of_fs_put)

lemma copy_inv_walkFn:
  assumes "copy_inv en st" "walkFn en n path fi content st = Inr (r, d, st')"
  shows "copy_inv en st'"
proof -
  let ?out = "filepath_Join [unpackedPath en, drop n path]"
  from walkFn_cases [OF assms(2)] consider
    (same) "st' = st"
    | (added) f1 f2 where
        "os_MkdirAll (faults en) (filepath_Dir ?out) (store st) = Inr f1"
        "os_Create (faults en) ?out f1 = Inr f2"
        "st' = st\<lparr>index := index st @ [drop n path],
                   store := write_file ?out (Bytes content) f2,
                   copied := copied st @ [?out]\<rparr>"
    by blast
  then show ?thesis
  proof cases
    case same
    with assms(1) show ?thesis by simp
  next
    case added
    have files: "\<exists>c. map_of (write_file ?out (Bytes content) f2) (fs_key p) = Some (File c)"
      if "p \<in> set (copied st)" for p
    proof -
      from assms(1) that obtain c where "map_of (store st) (fs_key p) = Some (File c)"
        unfolding copy_inv_def by blast
      with added(1) have "map_of f1 (fs_key p) = Some (File c)"
        by (rule os_MkdirAll_keeps)
      then have "\<exists>c. map_of f2 (fs_key p) = Some (File c)"
        by (simp add: os_Create_map_of [OF added(2)])
      then show ?thesis by (simp add: write_file_map_of)
    qed
    have new: "\<exists>c. map_of (write_file ?out (Bytes content) f2) (fs_key ?out) = Some (File c)"
      by (simp add: write_file_map_of)
    from assms(1) have "copied st = map (\<lambda>nm. filepath_Join [unpackedPath en, nm]) (index st)"
      by (simp add: copy_inv_def)
    with files new show ?thesis
      unfolding copy_inv_def added(3) by auto
  qed
qed

lemma copy_inv_walk:
  "\<forall>r st'. copy_inv en st \<longrightarrow> walk en n path t st = Inr (r, st') \<longrightarrow> copy_inv en st'"
  "\<forall>ks' st'. copy_inv en st \<longrightarrow> walk_kids en n path ks st = Inr (ks', st') \<longrightarrow> copy_inv en st'"
proof (induction en n path t st and en n path ks st rule: walk_walk_kids.induct)
  case (1 en n path nm fi content ks st)
  show ?case
  proof (intro allI impI)
    fix r st'
    assume inv: "copy_inv en st"
      and w: "walk en n path (Entry nm fi content ks) st = Inr (r, st')"
    from w obtain x d st1 where fn: "walkFn en n path fi content st = Inr (x, d, st1)"
      by (auto split: sum.splits)
    from inv fn have inv1: "copy_inv en st1" by (rule copy_inv_walkFn)
    show "copy_inv en st'"
    proof (cases "d \<or> x = SkipDir \<or> (case fi of None \<Rightarrow> True | Some i \<Rightarrow> \<not> IsDir i)")
      case True
      with w fn have "st' = st1" by (auto split: if_splits)
      with inv1 show ?thesis by simp
    next
      case False
      with w fn obtain ks' where "walk_kids en n path ks st1 = Inr (ks', st')"
        by (auto split: sum.splits)
      with "1.IH" [OF fn refl refl] False inv1 show ?thesis by blast
    qed
  qed
next
  case (2 en n path st)
  then show ?case by simp
next
  case (3 en n path k ks st)
  show ?case
  proof (intro allI impI)
    fix ks' st'
    assume inv: "copy_inv en st"
      and w: "walk_kids en n path (k # ks) st = Inr (ks', st')"
    from w obtain k' st1 where wk: "walk en n (filepath_Join [path, ename k]) k st = Inr (k', st1)"
      by (auto split: sum.splits)
    with "3.IH"(1) inv have inv1: "copy_inv en st1" by blast
    from w wk obtain ks1 where "walk_kids en n path ks st1 = Inr (ks1, st')"
      by (auto split: sum.splits)
    with "3.IH"(2) [OF wk refl] inv1 show "copy_inv en st'" by blast
  qed
qed

section \<open>Steps of the indexer\<close>

lemma map_of_filter_key:
  "map_of (filter (\<lambda>(q, _). P q) f) k = (if P k then map_of f k else None)"
  by (induction f) auto

lemma os_Rename_file:
  assumes "os_Rename flt old new f = Inr f'" "map_of f (fs_key old) = Some (File c)"
  shows "map_of f' (fs_key new) = Some (File c)"
    and "k \<noteq> fs_key old \<Longrightarrow>
         map_of f' k = (if k = fs_key new then Some (File c) else map_of f k)"
proof -
  let ?ko = "fs_key old" and ?kn = "fs_key new"
  have "map_of f' ?kn = Some (File c)
      \<and> (k \<noteq> ?ko \<longrightarrow> map_of f' k = (if k = ?kn then Some (File c) else map_of f k))"
  proof (cases "?ko = ?kn")
    case True
    with assms have "f' = f"
      by (auto simp: os_Rename_def Let_def split: if_splits)
    with True assms(2) show ?thesis by simp
  next
    case False
    with assms have f': "f' = filter (\<lambda>(q, _). q \<noteq> ?ko \<and> q \<noteq> ?kn) f @ [(?kn, File c)]"
      by (auto simp: os_Rename_def Let_def split: if_splits option.splits node.splits)
    show ?thesis
      unfolding f' by (auto simp: map_add_def map_of_filter_key split: option.splits)
  qed
  then show "map_of f' (fs_key new) = Some (File c)"
    and "k \<noteq> fs_key old \<Longrightarrow>
         map_of f' k = (if k = fs_key new then Some (File c) else map_of f k)"
    by simp_all
qed

lemma indexPackage_steps:
  assumes "indexPackage en pkg stage s = Inr (stage', cp, s')"
  shows "\<exists>f0 f1 st f3.
      os_MkdirAll (faults en) (unpackedPath en) (fs s) = Inr f0
    \<and> index_Create (faults en) (filepath_Join [unpackedPath en, pkg @ ''.tmp'']) f0 = Inr f1
    \<and> walk en (length (filepath_Join [tmpdir en, pkg]) + 1)
         (filepath_Join [tmpdir en, pkg, pkg]) stage
         \<lparr>index = [], store = f1, copied = []\<rparr> = Inr (stage', st)
    \<and> os_Rename (faults en) (filepath_Join [unpackedPath en, pkg @ ''.tmp''])
         (filepath_Join [unpackedPath en, pkg @ ''.idx''])
         (index_Flush (filepath_Join [unpackedPath en, pkg @ ''.tmp'']) (index st) (store st))
       = Inr f3
    \<and> cp = copied st
    \<and> s' = s\<lparr>fs := f3, successfulPackageIndexes := successfulPackageIndexes s + 1\<rparr>"
  using assms
  by (auto simp: indexPackage_def Let_def split: sum.splits prod.splits)

lemma walkFn_rejected:
  assumes "walkFn en n path (Some i) content st = Inr (r, d, st')"
    and "IsRegular (Mode i)" "utf8_ValidString path"
    and "AddFile_fails en path (drop n path) content"
  shows "d \<and> st' = st"
  using assms
  by (auto simp: walkFn_def AddFile_def Let_def IsDir_def IsRegular_def
      split: prod.splits if_splits option.splits)

section \<open>Paths below a directory\<close>

lemma split_sep_append:
  "split_sep (a @ CHR ''/'' # b) = split_sep a @ split_sep b"
proof (induction a)
  case Nil
  then show ?case by simp
next
  case (Cons c a)
  then show ?case
    by (cases "split_sep a") (auto split: list.splits)
qed

lemma foldl_clean_valid:
  "list_all valid_name ns \<Longrightarrow> foldl (clean_elem r) st ns = st @ ns"
  by (induction ns arbitrary: st) (simp_all add: clean_elem_valid)

lemma split_join_valid:
  assumes "list_all valid_name (n # ns)"
  shows "split_sep (join_sep (n # ns)) = n # ns"
  using assms by (intro split_join) (auto simp: list_all_iff valid_name_def)

lemma is_rooted_join_valid:
  assumes "valid_name n"
  shows "\<not> is_rooted (join_sep (n # ns))"
proof -
  from assms obtain c cs where "n = c # cs" "c \<noteq> CHR ''/''"
    by (cases n) (auto simp: valid_name_def)
  then show ?thesis
    by (cases ns) (simp_all add: is_rooted_def)
qed

text \<open>The key of a path given as a directory and names below it.\<close>

lemma fs_key_Join_names:
  assumes "list_all valid_name (n # ns)"
  shows "fs_key (filepath_Join [d, join_sep (n # ns)]) =
     (fst (fs_key d), snd (fs_key d) @ n # ns)"
proof (cases "d = []")
  case True
  from assms have "join_sep (n # ns) \<noteq> []"
    by (cases ns) (auto simp: valid_name_def)
  with True have "filepath_Join [d, join_sep (n # ns)] = filepath_Clean (join_sep (n # ns))"
    by (simp add: filepath_Join_def split: list.splits)
  moreover have "fs_key (join_sep (n # ns)) = (False, n # ns)"
    using assms split_join_valid [OF assms] is_rooted_join_valid [of n ns]
      foldl_clean_valid [OF assms, of False "[]"]
    by (simp add: fs_key_def path_elems_def)
  ultimately show ?thesis
    using True by (simp add: fs_key_Clean) (simp add: fs_key_def is_rooted_def)
next
  case False
  then have r: "is_rooted (d @ CHR ''/'' # join_sep (n # ns)) = is_rooted d"
    by (cases d) (simp_all add: is_rooted_def)
  have "split_sep (d @ CHR ''/'' # join_sep (n # ns)) = split_sep d @ n # ns"
    by (simp add: split_sep_append split_join_valid [OF assms])
  then have "path_elems (d @ CHR ''/'' # join_sep (n # ns)) = path_elems d @ n # ns"
    using foldl_clean_valid [OF assms] by (simp add: path_elems_def r)
  with False r show ?thesis
    by (simp add: filepath_Join_def fs_key_Clean) (simp add: fs_key_def)
qed

lemma render_snoc:
  assumes "st \<noteq> []"
  shows "render r (st @ [n]) = render r st @ CHR ''/'' # n"
  using assms by (simp add: render_def join_sep_snoc)

lemma normal_valid_snoc:
  "normal r st \<Longrightarrow> valid_name n \<Longrightarrow> normal r (st @ [n])"
  by (rule normal_snoc) (simp_all add: valid_name_def)

lemma Join_clean_snoc:
  assumes "normal r st" "st \<noteq> []" "valid_name n"
  shows "filepath_Join [render r st, n] = render r st @ CHR ''/'' # n"
proof -
  from assms(1) have "fs_key (render r st) = (r, st)" by (rule fs_key_render)
  then have "is_rooted (render r st) = r" "path_elems (render r st) = st"
    by (simp_all add: fs_key_def)
  with assms(3) have "filepath_Join [render r st, n] = render r (st @ [n])"
    by (simp add: Join_render)
  with assms(2) show ?thesis by (simp add: render_snoc)
qed

text \<open>\<^verbatim>\<open>filepath.Join\<close> of a directory and two names.\<close>

lemma Join3_render:
  assumes "valid_name a" "valid_name b"
  shows "filepath_Join [d, a, b] = render (is_rooted d) (path_elems d @ [a, b])"
proof (cases "d = []")
  case True
  from assms have ab: "list_all valid_name [a, b]" by simp
  from assms(1) have "a \<noteq> []" by (simp add: valid_name_def)
  with True have "filepath_Join [d, a, b] = filepath_Clean (join_sep [a, b])"
    by (simp add: filepath_Join_def)
  moreover have "is_rooted (join_sep [a, b]) = False"
    using is_rooted_join_valid [OF assms(1), of "[b]"] by simp
  moreover have "path_elems (join_sep [a, b]) = [a, b]"
    using split_join_valid [OF ab] foldl_clean_valid [OF ab, of False "[]"]
      \<open>is_rooted (join_sep [a, b]) = False\<close>
    by (simp add: path_elems_def)
  ultimately show ?thesis
    using True by (simp add: filepath_Clean_def is_rooted_def)
next
  case False
  then have r: "is_rooted (d @ CHR ''/'' # x) = is_rooted d" for x
    by (cases d) (simp_all add: is_rooted_def)
  from assms have ab: "list_all valid_name [a, b]" by simp
  have "split_sep (d @ CHR ''/'' # join_sep [a, b]) = split_sep d @ [a, b]"
    using split_join_valid [OF ab] by (simp only: split_sep_append)
  then have "path_elems (d @ CHR ''/'' # join_sep [a, b]) = path_elems d @ [a, b]"
    using foldl_clean_valid [OF ab] by (simp add: path_elems_def r)
  moreover from False have "filepath_Join [d, a, b] = filepath_Clean (d @ CHR ''/'' # join_sep [a, b])"
    by (simp add: filepath_Join_def split: list.splits)
  ultimately show ?thesis
    using r by (simp add: filepath_Clean_def)
qed

section \<open>Files of the store during the walk\<close>

lemma is_file_iff: "is_file f k \<longleftrightarrow> (\<exists>c. map_of f k = Some (File c))"
  by (auto simp: is_file_def split: option.splits node.splits)

lemma mkdir_all_files:
  "mkdir_all r pre cs f = Inr f' \<Longrightarrow> is_file f' k \<Longrightarrow> is_file f k"
proof (induction cs arbitrary: pre f)
  case Nil
  then show ?case by simp
next
  case (Cons c cs)
  show ?case
  proof (cases "map_of f (r, pre @ [c])")
    case None
    with Cons.prems(1) have "mkdir_all r (pre @ [c]) cs (f @ [((r, pre @ [c]), Dir)]) = Inr f'"
      by simp
    then have "is_file (f @ [((r, pre @ [c]), Dir)]) k"
      using Cons.prems(2) by (rule Cons.IH)
    then show ?thesis
      by (auto simp: is_file_iff map_add_def split: option.splits if_splits)
  next
    case (Some m)
    show ?thesis
    proof (cases m)
      case (File x)
      with Some Cons.prems(1) show ?thesis by simp
    next
      case Dir
      with Some Cons.prems(1) have "mkdir_all r (pre @ [c]) cs f = Inr f'" by simp
      then show ?thesis using Cons.prems(2) by (rule Cons.IH)
    qed
  qed
qed

lemma os_MkdirAll_files:
  "os_MkdirAll flt p f = Inr f' \<Longrightarrow> is_file f' k \<Longrightarrow> is_file f k"
  by (auto simp: os_MkdirAll_def split: if_splits intro: mkdir_all_files)

lemma os_Create_files:
  assumes "os_Create flt p f = Inr f'" "is_file f' k"
  shows "k = fs_key p \<or> is_file f k"
  using assms by (auto simp: is_file_iff os_Create_map_of [OF assms(1)] split: if_splits)

lemma write_file_files:
  "is_file (write_file p c f) k \<Longrightarrow> k = fs_key p \<or> is_file f k"
  by (auto simp: is_file_iff write_file_map_of split: if_splits)

lemma store_inv_walkFn:
  assumes "store_inv en pkg f0 st" "walkFn en n path fi content st = Inr (x, d, st')"
    and "drop n path = join_sep (pkg # ns)" "list_all valid_name (pkg # ns)"
  shows "store_inv en pkg f0 st'"
proof -
  let ?K = "fs_key (unpackedPath en)"
  let ?out = "filepath_Join [unpackedPath en, drop n path]"
  from walkFn_cases [OF assms(2)] consider
    (same) "st' = st"
    | (added) f1 f2 where
        "os_MkdirAll (faults en) (filepath_Dir ?out) (store st) = Inr f1"
        "os_Create (faults en) ?out f1 = Inr f2"
        "st' = st\<lparr>index := index st @ [drop n path],
                   store := write_file ?out (Bytes content) f2,
                   copied := copied st @ [?out]\<rparr>"
    by blast
  then show ?thesis
  proof cases
    case same
    with assms(1) show ?thesis by simp
  next
    case added
    have key: "fs_key ?out = (fst ?K, snd ?K @ pkg # ns)"
      unfolding assms(3) using assms(4) by (rule fs_key_Join_names)
    have copied': "copied st' = copied st @ [?out]" and store': "store st' = write_file ?out (Bytes content) f2"
      by (simp_all add: added(3))
    have a: "\<exists>ms. fs_key p = (fst ?K, snd ?K @ pkg # ms)" if "p \<in> set (copied st')" for p
    proof (cases "p = ?out")
      case True
      with key show ?thesis by blast
    next
      case False
      with that have "p \<in> set (copied st)" by (simp add: copied')
      with assms(1) show ?thesis unfolding store_inv_def by blast
    qed
    have b: "is_file f0 k \<or> k \<in> fs_key ` set (copied st')" if "is_file (store st') k" for k
    proof (cases "k = fs_key ?out")
      case True
      then show ?thesis by (simp add: copied')
    next
      case False
      with that have "is_file f2 k"
        unfolding store' using write_file_files by blast
      with False have "is_file f1 k"
        using os_Create_files [OF added(2)] by blast
      with added(1) have "is_file (store st) k"
        by (rule os_MkdirAll_files)
      with assms(1) have "is_file f0 k \<or> k \<in> fs_key ` set (copied st)"
        unfolding store_inv_def by blast
      then show ?thesis by (auto simp: copied')
    qed
    have c: "is_file (store st') k" if "is_file f0 k" for k
    proof -
      from assms(1) that have "is_file (store st) k"
        unfolding store_inv_def by blast
      then obtain x where "map_of (store st) k = Some (File x)"
        unfolding is_file_iff by blast
      with added(1) have "map_of f1 k = Some (File x)"
        by (rule os_MkdirAll_keeps)
      then have "\<exists>y. map_of f2 k = Some (File y)"
        by (simp add: os_Create_map_of [OF added(2)])
      then show ?thesis
        unfolding store' is_file_iff by (simp add: write_file_map_of)
    qed
    from a b c show ?thesis unfolding store_inv_def by blast
  qed
qed

section \<open>Paths in the staging tree\<close>

lemma normal_append_valid:
  "normal r st \<Longrightarrow> list_all valid_name ns \<Longrightarrow> normal r (st @ ns)"
proof (induction ns arbitrary: st)
  case Nil
  then show ?case by simp
next
  case (Cons n ns)
  from Cons.prems have "normal r (st @ [n])"
    by (intro normal_valid_snoc) simp_all
  with Cons.prems have "normal r ((st @ [n]) @ ns)"
    by (intro Cons.IH) simp_all
  then show ?case by simp
qed

lemma render_names:
  "st \<noteq> [] \<Longrightarrow> render r (st @ ns) = render r st @ concat (map ((#) CHR ''/'') ns)"
proof (induction ns arbitrary: st)
  case Nil
  then show ?case by simp
next
  case (Cons n ns)
  have "render r ((st @ [n]) @ ns) = render r (st @ [n]) @ concat (map ((#) CHR ''/'') ns)"
    by (rule Cons.IH) simp
  with Cons.prems show ?case by (simp add: render_snoc)
qed

lemma join_sep_Cons: "join_sep (n # ns) = n @ concat (map ((#) CHR ''/'') ns)"
  by (induction ns arbitrary: n) simp_all

lemma staged_path_root:
  assumes "valid_name pkg"
  shows "filepath_Join [tmpdir en, pkg, pkg] = staged_path en pkg []"
  using Join3_render [OF assms assms] by (simp add: staged_path_def)

lemma staged_path_kid:
  assumes "valid_name pkg" "list_all valid_name ns" "valid_name nm"
  shows "filepath_Join [staged_path en pkg ns, nm] = staged_path en pkg (ns @ [nm])"
proof -
  let ?r = "is_rooted (tmpdir en)" and ?st = "path_elems (tmpdir en) @ [pkg, pkg] @ ns"
  from assms(1,2) have "list_all valid_name ([pkg, pkg] @ ns)" by simp
  with normal_path_elems have n: "normal ?r ?st"
    by (rule normal_append_valid)
  have "filepath_Join [render ?r ?st, nm] = render ?r ?st @ CHR ''/'' # nm"
    using n _ assms(3) by (rule Join_clean_snoc) simp
  also have "\<dots> = render ?r (?st @ [nm])"
    by (rule render_snoc [symmetric]) simp
  finally show ?thesis by (simp add: staged_path_def)
qed

lemma staged_path_drop:
  assumes "valid_name pkg"
  shows "drop (length (filepath_Join [tmpdir en, pkg]) + 1) (staged_path en pkg ns) =
     join_sep (pkg # ns)"
proof -
  let ?r = "is_rooted (tmpdir en)" and ?E = "path_elems (tmpdir en)"
  let ?B = "render ?r (?E @ [pkg])"
  have B: "filepath_Join [tmpdir en, pkg] = ?B"
    using assms by (rule Join_render)
  have "staged_path en pkg ns = render ?r ((?E @ [pkg]) @ pkg # ns)"
    by (simp add: staged_path_def)
  also have "\<dots> = ?B @ concat (map ((#) CHR ''/'') (pkg # ns))"
    by (rule render_names) simp
  also have "\<dots> = ?B @ CHR ''/'' # join_sep (pkg # ns)"
    by (simp add: join_sep_Cons)
  finally show ?thesis unfolding B by simp
qed

lemma store_inv_walk:
  "\<forall>ns r' st'. valid_name pkg \<longrightarrow> list_all valid_name ns \<longrightarrow> path = staged_path en pkg ns \<longrightarrow>
      n = length (filepath_Join [tmpdir en, pkg]) + 1 \<longrightarrow> wf_tree t \<longrightarrow>
      store_inv en pkg f0 st \<longrightarrow> walk en n path t st = Inr (r', st') \<longrightarrow>
      store_inv en pkg f0 st'"
  "\<forall>ns ks' st'. valid_name pkg \<longrightarrow> list_all valid_name ns \<longrightarrow> path = staged_path en pkg ns \<longrightarrow>
      n = length (filepath_Join [tmpdir en, pkg]) + 1 \<longrightarrow> wf_trees ks \<longrightarrow>
      store_inv en pkg f0 st \<longrightarrow> walk_kids en n path ks st = Inr (ks', st') \<longrightarrow>
      store_inv en pkg f0 st'"
proof (induction en n path t st and en n path ks st rule: walk_walk_kids.induct)
  case (1 en n path nm fi content ks st)
  show ?case
  proof (intro allI impI)
    fix ns r' st'
    assume v: "valid_name pkg" and vs: "list_all valid_name ns"
      and p: "path = staged_path en pkg ns"
      and n: "n = length (filepath_Join [tmpdir en, pkg]) + 1"
      and wf: "wf_tree (Entry nm fi content ks)"
      and inv: "store_inv en pkg f0 st"
      and w: "walk en n path (Entry nm fi content ks) st = Inr (r', st')"
    from w obtain x d st1 where fn: "walkFn en n path fi content st = Inr (x, d, st1)"
      by (auto split: sum.splits)
    have "drop n path = join_sep (pkg # ns)"
      unfolding p n using v by (rule staged_path_drop)
    moreover from v vs have "list_all valid_name (pkg # ns)" by simp
    ultimately have inv1: "store_inv en pkg f0 st1"
      by (rule store_inv_walkFn [OF inv fn])
    show "store_inv en pkg f0 st'"
    proof (cases "d \<or> x = SkipDir \<or> (case fi of None \<Rightarrow> True | Some i \<Rightarrow> \<not> IsDir i)")
      case True
      with w fn have "st' = st1" by (auto split: if_splits)
      with inv1 show ?thesis by simp
    next
      case False
      with w fn obtain ks' where wk: "walk_kids en n path ks st1 = Inr (ks', st')"
        by (auto split: sum.splits)
      from wf have "wf_trees ks" by simp
      with "1.IH" [OF fn refl refl] False v vs p n inv1 wk show ?thesis by blast
    qed
  qed
next
  case (2 en n path st)
  then show ?case by simp
next
  case (3 en n path k ks st)
  show ?case
  proof (intro allI impI)
    fix ns ks' st'
    assume v: "valid_name pkg" and vs: "list_all valid_name ns"
      and p: "path = staged_path en pkg ns"
      and n: "n = length (filepath_Join [tmpdir en, pkg]) + 1"
      and wf: "wf_trees (k # ks)"
      and inv: "store_inv en pkg f0 st"
      and w: "walk_kids en n path (k # ks) st = Inr (ks', st')"
    from w obtain k' st1 where wk: "walk en n (filepath_Join [path, ename k]) k st = Inr (k', st1)"
      by (auto split: sum.splits)
    from w wk obtain ks1 where wks: "walk_kids en n path ks st1 = Inr (ks1, st')"
      by (auto split: sum.splits)
    from wf have vk: "valid_name (ename k)" and wfk: "wf_tree k" and wfs: "wf_trees ks"
      by simp_all
    from vs vk have vs': "list_all valid_name (ns @ [ename k])" by simp
    have p': "filepath_Join [path, ename k] = staged_path en pkg (ns @ [ename k])"
      unfolding p using v vs vk by (rule staged_path_kid)
    from "3.IH"(1) v vs' p' n wfk inv wk have inv1: "store_inv en pkg f0 st1" by blast
    from "3.IH"(2) [OF wk refl] v vs p n wfs inv1 wks show "store_inv en pkg f0 st'" by blast
  qed
qed

section \<open>Files below the package's directory\<close>

lemma valid_name_tmp:
  assumes "valid_name n"
  shows "valid_name (n @ ''.tmp'')"
proof -
  have "length (n @ ''.tmp'') \<noteq> length ''.''" "length (n @ ''.tmp'') \<noteq> length ''..''"
    by simp_all
  then have "n @ ''.tmp'' \<noteq> ''.''" "n @ ''.tmp'' \<noteq> ''..''"
    by fastforce+
  with assms show ?thesis by (simp add: valid_name_def)
qed

lemma not_within_sibling: "a \<noteq> b \<Longrightarrow> \<not> within (r, st @ [a]) (r', st @ [b])"
  by (auto simp: within_def below_def strict_prefix_def prefix_def)

lemma within_names: "within (r, st @ [a]) (r, st @ a # ns)"
  by (cases ns) (auto simp: within_def below_def strict_prefix_def)

lemma indexPackage_store_files:
  assumes run: "indexPackage en pkg stage s = Inr (stage', cp, s')"
    and v: "valid_name pkg" and wf: "wf_tree stage"
  shows "{k. within (fst (fs_key (unpackedPath en)), snd (fs_key (unpackedPath en)) @ [pkg]) k
            \<and> is_file (fs s') k} =
         {k. within (fst (fs_key (unpackedPath en)), snd (fs_key (unpackedPath en)) @ [pkg]) k
            \<and> is_file (fs s) k} \<union> fs_key ` set cp"
proof -
  let ?K = "fs_key (unpackedPath en)"
  let ?kp = "(fst ?K, snd ?K @ [pkg])"
  let ?tmp = "filepath_Join [unpackedPath en, pkg @ ''.tmp'']"
  let ?idx = "filepath_Join [unpackedPath en, pkg @ ''.idx'']"
  let ?n = "length (filepath_Join [tmpdir en, pkg]) + 1"
  from indexPackage_steps [OF run] obtain f0 f1 st f3 where
    mk: "os_MkdirAll (faults en) (unpackedPath en) (fs s) = Inr f0"
    and cr: "index_Create (faults en) ?tmp f0 = Inr f1"
    and w: "walk en ?n (filepath_Join [tmpdir en, pkg, pkg]) stage
         \<lparr>index = [], store = f1, copied = []\<rparr> = Inr (stage', st)"
    and rn: "os_Rename (faults en) ?tmp ?idx (index_Flush ?tmp (index st) (store st)) = Inr f3"
    and cp: "cp = copied st"
    and s': "s' = s\<lparr>fs := f3, successfulPackageIndexes := successfulPackageIndexes s + 1\<rparr>"
    by blast
  have fs': "fs s' = f3" by (simp add: s')
  define f2 where "f2 = index_Flush ?tmp (index st) (store st)"
  have ktmp: "fs_key ?tmp = (fst ?K, snd ?K @ [pkg @ ''.tmp''])"
    using v by (intro fs_key_store_entry valid_name_tmp)
  have kidx: "fs_key ?idx = (fst ?K, snd ?K @ [pkg @ ''.idx''])"
    using v by (intro fs_key_store_entry valid_name_idx)
  have ntmp: "\<not> within ?kp (fs_key ?tmp)"
    unfolding ktmp by (rule not_within_sibling) simp
  have nidx: "\<not> within ?kp (fs_key ?idx)"
    unfolding kidx by (rule not_within_sibling) simp
  have cr': "os_Create (faults en) ?tmp f0 = Inr f1"
    using cr by (simp add: index_Create_def)
  have "copy_inv en \<lparr>index = [], store = f1, copied = []\<rparr>"
    by (simp add: copy_inv_def)
  with copy_inv_walk(1) w have cinv: "copy_inv en st" by blast
  have "store_inv en pkg f1 \<lparr>index = [], store = f1, copied = []\<rparr>"
    by (simp add: store_inv_def)
  moreover have "list_all valid_name []" by simp
  moreover have "filepath_Join [tmpdir en, pkg, pkg] = staged_path en pkg []"
    using v by (rule staged_path_root)
  ultimately have sinv: "store_inv en pkg f1 st"
    using store_inv_walk(1) v wf w by blast
  have flushed: "map_of f2 (fs_key ?tmp) = Some (File (Shard (index st)))"
    by (simp add: f2_def index_Flush_def write_file_map_of)
  have rn': "os_Rename (faults en) ?tmp ?idx f2 = Inr f3"
    using rn by (simp add: f2_def)
  have other: "map_of f3 k = map_of (store st) k" if "within ?kp k" for k
  proof -
    from that ntmp nidx have ne: "k \<noteq> fs_key ?tmp" "k \<noteq> fs_key ?idx" by auto
    then have "map_of f3 k = map_of f2 k"
      by (simp add: os_Rename_file(2) [OF rn' flushed])
    with ne(1) show ?thesis
      by (simp add: f2_def index_Flush_def write_file_map_of)
  qed
  have before: "is_file f1 k \<longleftrightarrow> is_file (fs s) k" if "within ?kp k" for k
  proof
    assume "is_file f1 k"
    with cr' have "k = fs_key ?tmp \<or> is_file f0 k"
      by (rule os_Create_files)
    with that ntmp have "is_file f0 k" by auto
    with mk show "is_file (fs s) k" by (rule os_MkdirAll_files)
  next
    assume "is_file (fs s) k"
    then obtain x where "map_of (fs s) k = Some (File x)"
      unfolding is_file_iff by blast
    with mk have "map_of f0 k = Some (File x)"
      by (rule os_MkdirAll_keeps)
    moreover from that ntmp have "k \<noteq> fs_key ?tmp" by auto
    ultimately show "is_file f1 k"
      unfolding is_file_iff by (simp add: os_Create_map_of [OF cr'])
  qed
  show ?thesis
  proof (intro set_eqI iffI)
    fix k
    assume "k \<in> {k. within ?kp k \<and> is_file (fs s') k}"
    then have wk: "within ?kp k" and "is_file f3 k" by (simp_all add: fs')
    with other have "is_file (store st) k" by (simp add: is_file_def)
    with sinv have "is_file f1 k \<or> k \<in> fs_key ` set (copied st)"
      unfolding store_inv_def by blast
    with before [OF wk] have "is_file (fs s) k \<or> k \<in> fs_key ` set cp"
      by (simp add: cp)
    with wk show "k \<in> {k. within ?kp k \<and> is_file (fs s) k} \<union> fs_key ` set cp"
      by blast
  next
    fix k
    assume "k \<in> {k. within ?kp k \<and> is_file (fs s) k} \<union> fs_key ` set cp"
    then consider (old) "within ?kp k" "is_file (fs s) k" | (new) "k \<in> fs_key ` set cp"
      by blast
    then have "within ?kp k \<and> is_file (store st) k"
    proof cases
      case old
      with before have "is_file f1 k" by blast
      with sinv have "is_file (store st) k"
        unfolding store_inv_def by blast
      with old(1) show ?thesis by simp
    next
      case new
      then obtain p where p: "p \<in> set (copied st)" "k = fs_key p" by (auto simp: cp)
      with sinv obtain ns where "k = (fst ?K, snd ?K @ pkg # ns)"
        unfolding store_inv_def by blast
      then have "within ?kp k" by (simp add: within_names)
      moreover from cinv p have "is_file (store st) k"
        unfolding copy_inv_def is_file_iff by blast
      ultimately show ?thesis by simp
    qed
    then have wk: "within ?kp k" and "is_file (store st) k" by simp_all
    with other [OF wk] have "is_file f3 k" by (simp add: is_file_def)
    with wk show "k \<in> {k. within ?kp k \<and> is_file (fs s') k}" by (simp add: fs')
  qed
qed

section \<open>The index of a package and its files in the store\<close>

text \<open>
  Claim C1, as amended. When the indexer completes for a package, the index published at
  \<open>pkg.idx\<close> holds exactly the names whose files this run has copied to the store: the
  files copied are these names, each joined to the store's path, in the same order, and
  each of them (the temporary index file's own path apart) is a file of the store. For a
  package name and a staging tree whose names are valid, the files of the store at or
  below \<open>pkg\<close> are then the files copied together with the files that were there before
  the run; they are exactly the files copied when the store had no file at or below
  \<open>pkg\<close>. A regular file that \<^verbatim>\<open>AddFile\<close> rejects is removed from the staging tree, and
  neither indexed nor copied.
\<close>

theorem indexPackage_index_is_copied:
  assumes "indexPackage en pkg stage s = Inr (stage', cp, s')"
  shows "(\<exists>names.
        map_of (fs s') (fs_key (filepath_Join [unpackedPath en, pkg @ ''.idx''])) =
          Some (File (Shard names))
        \<and> cp = map (\<lambda>nm. filepath_Join [unpackedPath en, nm]) names
        \<and> (\<forall>p\<in>set cp.
              fs_key p \<noteq> fs_key (filepath_Join [unpackedPath en, pkg @ ''.tmp'']) \<longrightarrow>
              (\<exists>c. map_of (fs s') (fs_key p) = Some (File c))))
     \<and> (valid_name pkg \<and> wf_tree stage
          \<longrightarrow> {k. within (fst (fs_key (unpackedPath en)),
                             snd (fs_key (unpackedPath en)) @ [pkg]) k
                    \<and> is_file (fs s') k} =
               {k. within (fst (fs_key (unpackedPath en)),
                             snd (fs_key (unpackedPath en)) @ [pkg]) k
                    \<and> is_file (fs s) k} \<union> fs_key ` set cp)
     \<and> (valid_name pkg \<and> wf_tree stage
          \<and> (\<forall>k. within (fst (fs_key (unpackedPath en)),
                            snd (fs_key (unpackedPath en)) @ [pkg]) k
                 \<longrightarrow> \<not> is_file (fs s) k)
          \<longrightarrow> {k. within (fst (fs_key (unpackedPath en)),
                             snd (fs_key (unpackedPath en)) @ [pkg]) k
                    \<and> is_file (fs s') k} = fs_key ` set cp)
     \<and> (\<forall>n path i content st r d st'.
          walkFn en n path (Some i) content st = Inr (r, d, st')
          \<and> IsRegular (Mode i) \<and> utf8_ValidString path
          \<and> AddFile_fails en path (drop n path) content
          \<longrightarrow> d \<and> st' = st)"
proof -
  let ?tmp = "filepath_Join [unpackedPath en, pkg @ ''.tmp'']"
  let ?idx = "filepath_Join [unpackedPath en, pkg @ ''.idx'']"
  let ?kp = "(fst (fs_key (unpackedPath en)), snd (fs_key (unpackedPath en)) @ [pkg])"
  from indexPackage_steps [OF assms] obtain f1 st f3 where
    w: "walk en (length (filepath_Join [tmpdir en, pkg]) + 1)
         (filepath_Join [tmpdir en, pkg, pkg]) stage
         \<lparr>index = [], store = f1, copied = []\<rparr> = Inr (stage', st)"
    and rn: "os_Rename (faults en) ?tmp ?idx (index_Flush ?tmp (index st) (store st)) = Inr f3"
    and cp: "cp = copied st"
    and s': "s' = s\<lparr>fs := f3, successfulPackageIndexes := successfulPackageIndexes s + 1\<rparr>"
    by blast
  have "copy_inv en \<lparr>index = [], store = f1, copied = []\<rparr>"
    by (simp add: copy_inv_def)
  with copy_inv_walk(1) w have inv: "copy_inv en st" by blast
  have fs': "fs s' = f3" by (simp add: s')
  have flushed: "map_of (index_Flush ?tmp (index st) (store st)) (fs_key ?tmp) =
      Some (File (Shard (index st)))"
    by (simp add: index_Flush_def write_file_map_of)
  have a: "map_of (fs s') (fs_key ?idx) = Some (File (Shard (index st)))"
    unfolding fs' using rn flushed by (rule os_Rename_file(1))
  have b: "cp = map (\<lambda>nm. filepath_Join [unpackedPath en, nm]) (index st)"
    using inv by (simp add: copy_inv_def cp)
  have c: "\<exists>c. map_of (fs s') (fs_key p) = Some (File c)"
    if "p \<in> set cp" "fs_key p \<noteq> fs_key ?tmp" for p
  proof -
    from inv that(1) obtain c where "map_of (store st) (fs_key p) = Some (File c)"
      unfolding copy_inv_def cp by blast
    with that(2) have "map_of (index_Flush ?tmp (index st) (store st)) (fs_key p) = Some (File c)"
      by (simp add: index_Flush_def write_file_map_of)
    then show ?thesis
      unfolding fs' by (simp add: os_Rename_file(2) [OF rn flushed that(2)])
  qed
  from a b c have "\<exists>names.
        map_of (fs s') (fs_key ?idx) = Some (File (Shard names))
        \<and> cp = map (\<lambda>nm. filepath_Join [unpackedPath en, nm]) names
        \<and> (\<forall>p\<in>set cp. fs_key p \<noteq> fs_key ?tmp \<longrightarrow>
              (\<exists>c. map_of (fs s') (fs_key p) = Some (File c)))"
    by blast
  moreover have u: "valid_name pkg \<and> wf_tree stage
          \<longrightarrow> {k. within ?kp k \<and> is_file (fs s') k} =
               {k. within ?kp k \<and> is_file (fs s) k} \<union> fs_key ` set cp"
    using indexPackage_store_files [OF assms] by blast
  moreover have "valid_name pkg \<and> wf_tree stage
          \<and> (\<forall>k. within ?kp k \<longrightarrow> \<not> is_file (fs s) k)
          \<longrightarrow> {k. within ?kp k \<and> is_file (fs s') k} = fs_key ` set cp"
  proof
    assume h: "valid_name pkg \<and> wf_tree stage
          \<and> (\<forall>k. within ?kp k \<longrightarrow> \<not> is_file (fs s) k)"
    then have "{k. within ?kp k \<and> is_file (fs s) k} = {}" by blast
    with u h show "{k. within ?kp k \<and> is_file (fs s') k} = fs_key ` set cp" by simp
  qed
  moreover have "\<forall>n path i content st r d st'.
          walkFn en n path (Some i) content st = Inr (r, d, st')
          \<and> IsRegular (Mode i) \<and> utf8_ValidString path
          \<and> AddFile_fails en path (drop n path) content
          \<longrightarrow> d \<and> st' = st"
    using walkFn_rejected by blast
  ultimately show ?thesis by (intro conjI)
qed

theorem indexPackage_index_is_copied_witness:
  "indexPackage example_env ''p''
     (Entry ''p'' (Some \<lparr>Mode = ModeDir, Size = 0\<rparr>) []
        [Entry ''a.c'' (Some \<lparr>Mode = ModeRegular, Size = 3\<rparr>) ''abc'' [],
         Entry ''b.o'' (Some \<lparr>Mode = ModeRegular, Size = 3\<rparr>) ''obj'' []])
     ((state_of [((True, [''s'']), Dir), ((True, [''s'', ''p'']), Dir),
                 ((True, [''s'', ''p'', ''old.c'']), File (Bytes ''old'')),
                 ((True, [''s'', ''p.idx'']), File (Shard [''p/old.c'']))])
        \<lparr>successfulPackageIndexes := 1\<rparr>) =
   Inr (Some (Entry ''p'' (Some \<lparr>Mode = ModeDir, Size = 0\<rparr>) []
                [Entry ''a.c'' (Some \<lparr>Mode = ModeRegular, Size = 3\<rparr>) ''abc'' []]),
        [''/s/p/a.c''],
        (state_of [((True, [''s'']), Dir), ((True, [''s'', ''p'']), Dir),
                   ((True, [''s'', ''p'', ''old.c'']), File (Bytes ''old'')),
                   ((True, [''s'', ''p'', ''a.c'']), File (Bytes ''abc'')),
                   ((True, [''s'', ''p.idx'']), File (Shard [''p/a.c'']))])
          \<lparr>successfulPackageIndexes := 2\<rparr>)
   \<and> valid_name ''p''
   \<and> wf_tree (Entry ''p'' (Some \<lparr>Mode = ModeDir, Size = 0\<rparr>) []
        [Entry ''a.c'' (Some \<lparr>Mode = ModeRegular, Size = 3\<rparr>) ''abc'' [],
         Entry ''b.o'' (Some \<lparr>Mode = ModeRegular, Size = 3\<rparr>) ''obj'' []])
   \<and> (\<exists>names.
        map_of (fs ((state_of [((True, [''s'']), Dir), ((True, [''s'', ''p'']), Dir),
                   ((True, [''s'', ''p'', ''old.c'']), File (Bytes ''old'')),
                   ((True, [''s'', ''p'', ''a.c'']), File (Bytes ''abc'')),
                   ((True, [''s'', ''p.idx'']), File (Shard [''p/a.c'']))])
                      \<lparr>successfulPackageIndexes := 2\<rparr>))
          (fs_key (filepath_Join [unpackedPath example_env, ''p'' @ ''.idx''])) =
          Some (File (Shard names))
        \<and> [''/s/p/a.c''] = map (\<lambda>nm. filepath_Join [unpackedPath example_env, nm]) names
        \<and> (\<forall>p\<in>set [''/s/p/a.c''].
              fs_key p \<noteq> fs_key (filepath_Join [unpackedPath example_env, ''p'' @ ''.tmp'']) \<longrightarrow>
              (\<exists>c. map_of (fs ((state_of [((True, [''s'']), Dir), ((True, [''s'', ''p'']), Dir),
                   ((True, [''s'', ''p'', ''old.c'']), File (Bytes ''old'')),
                   ((True, [''s'', ''p'', ''a.c'']), File (Bytes ''abc'')),
                   ((True, [''s'', ''p.idx'']), File (Shard [''p/a.c'']))])
                      \<lparr>successfulPackageIndexes := 2\<rparr>)) (fs_key p) = Some (File c))))
   \<and> {k. within (fst (fs_key (unpackedPath example_env)),
                  snd (fs_key (unpackedPath example_env)) @ [''p'']) k
          \<and> is_file (fs ((state_of [((True, [''s'']), Dir), ((True, [''s'', ''p'']), Dir),
                   ((True, [''s'', ''p'', ''old.c'']), File (Bytes ''old'')),
                   ((True, [''s'', ''p'', ''a.c'']), File (Bytes ''abc'')),
                   ((True, [''s'', ''p.idx'']), File (Shard [''p/a.c'']))])
                      \<lparr>successfulPackageIndexes := 2\<rparr>)) k} =
       {k. within (fst (fs_key (unpackedPath example_env)),
                  snd (fs_key (unpackedPath example_env)) @ [''p'']) k
          \<and> is_file (fs ((state_of [((True, [''s'']), Dir), ((True, [''s'', ''p'']), Dir),
                 ((True, [''s'', ''p'', ''old.c'']), File (Bytes ''old'')),
                 ((True, [''s'', ''p.idx'']), File (Shard [''p/old.c'']))])
                   \<lparr>successfulPackageIndexes := 1\<rparr>)) k}
       \<union> fs_key ` set [''/s/p/a.c'']
   \<and> indexPackage example_env ''p''
       (Entry ''p'' (Some \<lparr>Mode = ModeDir, Size = 0\<rparr>) []
          [Entry ''a.c'' (Some \<lparr>Mode = ModeRegular, Size = 3\<rparr>) ''abc'' [],
           Entry ''b.o'' (Some \<lparr>Mode = ModeRegular, Size = 3\<rparr>) ''obj'' []])
       (state_of []) =
     Inr (Some (Entry ''p'' (Some \<lparr>Mode = ModeDir, Size = 0\<rparr>) []
                  [Entry ''a.c'' (Some \<lparr>Mode = ModeRegular, Size = 3\<rparr>) ''abc'' []]),
          [''/s/p/a.c''],
          (state_of [((True, [''s'']), Dir), ((True, [''s'', ''p'']), Dir),
                     ((True, [''s'', ''p'', ''a.c'']), File (Bytes ''abc'')),
                     ((True, [''s'', ''p.idx'']), File (Shard [''p/a.c'']))])
            \<lparr>successfulPackageIndexes := 1\<rparr>)
   \<and> {k. within (fst (fs_key (unpackedPath example_env)),
                  snd (fs_key (unpackedPath example_env)) @ [''p'']) k
          \<and> is_file (fs ((state_of [((True, [''s'']), Dir), ((True, [''s'', ''p'']), Dir),
                     ((True, [''s'', ''p'', ''a.c'']), File (Bytes ''abc'')),
                     ((True, [''s'', ''p.idx'']), File (Shard [''p/a.c'']))])
                      \<lparr>successfulPackageIndexes := 1\<rparr>)) k} =
       fs_key ` set [''/s/p/a.c'']"
proof -
  let ?stage = "Entry ''p'' (Some \<lparr>Mode = ModeDir, Size = 0\<rparr>) []
        [Entry ''a.c'' (Some \<lparr>Mode = ModeRegular, Size = 3\<rparr>) ''abc'' [],
         Entry ''b.o'' (Some \<lparr>Mode = ModeRegular, Size = 3\<rparr>) ''obj'' []]"
  let ?stage' = "Some (Entry ''p'' (Some \<lparr>Mode = ModeDir, Size = 0\<rparr>) []
                [Entry ''a.c'' (Some \<lparr>Mode = ModeRegular, Size = 3\<rparr>) ''abc'' []])"
  let ?s1 = "(state_of [((True, [''s'']), Dir), ((True, [''s'', ''p'']), Dir),
                 ((True, [''s'', ''p'', ''old.c'']), File (Bytes ''old'')),
                 ((True, [''s'', ''p.idx'']), File (Shard [''p/old.c'']))])
        \<lparr>successfulPackageIndexes := 1\<rparr>"
  let ?s2 = "(state_of [((True, [''s'']), Dir), ((True, [''s'', ''p'']), Dir),
                   ((True, [''s'', ''p'', ''old.c'']), File (Bytes ''old'')),
                   ((True, [''s'', ''p'', ''a.c'']), File (Bytes ''abc'')),
                   ((True, [''s'', ''p.idx'']), File (Shard [''p/a.c'']))])
          \<lparr>successfulPackageIndexes := 2\<rparr>"
  let ?s' = "(state_of [((True, [''s'']), Dir), ((True, [''s'', ''p'']), Dir),
                   ((True, [''s'', ''p'', ''a.c'']), File (Bytes ''abc'')),
                   ((True, [''s'', ''p.idx'']), File (Shard [''p/a.c'']))])
          \<lparr>successfulPackageIndexes := 1\<rparr>"
  have ev2: "indexPackage example_env ''p'' ?stage ?s1 = Inr (?stage', [''/s/p/a.c''], ?s2)"
    by code_simp
  have ev: "indexPackage example_env ''p'' ?stage (state_of []) =
      Inr (?stage', [''/s/p/a.c''], ?s')"
    by code_simp
  have v: "valid_name ''p''" by (simp add: valid_name_def)
  have wf: "wf_tree ?stage" by (simp add: valid_name_def)
  have fresh: "\<forall>k. within (fst (fs_key (unpackedPath example_env)),
                          snd (fs_key (unpackedPath example_env)) @ [''p'']) k
                 \<longrightarrow> \<not> is_file (fs (state_of [])) k"
    by (simp add: state_of_def is_file_def)
  note t2 = indexPackage_index_is_copied [OF ev2]
  note a = t2 [THEN conjunct1]
  note b = t2 [THEN conjunct2, THEN conjunct1, THEN mp, OF conjI [OF v wf]]
  note t = indexPackage_index_is_copied [OF ev]
  note c = t [THEN conjunct2, THEN conjunct2, THEN conjunct1, THEN mp,
      OF conjI [OF v conjI [OF wf fresh]]]
  from ev2 v wf a b ev c show ?thesis by (intro conjI)
qed

text \<open>
  The claim as stated fails when a package is imported again: nothing removes the files
  that an earlier import has copied, so a file that the new tree no longer has stays
  under the package's directory in the store, and the new index does not name it.
\<close>

theorem indexPackage_reimport_counterexample:
  "indexPackage example_env ''p''
     (Entry ''p'' (Some \<lparr>Mode = ModeDir, Size = 0\<rparr>) []
        [Entry ''old.c'' (Some \<lparr>Mode = ModeRegular, Size = 3\<rparr>) ''old'' []])
     (state_of []) =
   Inr (Some (Entry ''p'' (Some \<lparr>Mode = ModeDir, Size = 0\<rparr>) []
                [Entry ''old.c'' (Some \<lparr>Mode = ModeRegular, Size = 3\<rparr>) ''old'' []]),
        [''/s/p/old.c''],
        (state_of [((True, [''s'']), Dir), ((True, [''s'', ''p'']), Dir),
                   ((True, [''s'', ''p'', ''old.c'']), File (Bytes ''old'')),
                   ((True, [''s'', ''p.idx'']), File (Shard [''p/old.c'']))])
          \<lparr>successfulPackageIndexes := 1\<rparr>)
   \<and> indexPackage example_env ''p''
       (Entry ''p'' (Some \<lparr>Mode = ModeDir, Size = 0\<rparr>) []
          [Entry ''a.c'' (Some \<lparr>Mode = ModeRegular, Size = 3\<rparr>) ''abc'' []])
       ((state_of [((True, [''s'']), Dir), ((True, [''s'', ''p'']), Dir),
                   ((True, [''s'', ''p'', ''old.c'']), File (Bytes ''old'')),
                   ((True, [''s'', ''p.idx'']), File (Shard [''p/old.c'']))])
          \<lparr>successfulPackageIndexes := 1\<rparr>) =
     Inr (Some (Entry ''p'' (Some \<lparr>Mode = ModeDir, Size = 0\<rparr>) []
                  [Entry ''a.c'' (Some \<lparr>Mode = ModeRegular, Size = 3\<rparr>) ''abc'' []]),
          [''/s/p/a.c''],
          (state_of [((True, [''s'']), Dir), ((True, [''s'', ''p'']), Dir),
                     ((True, [''s'', ''p'', ''old.c'']), File (Bytes ''old'')),
                     ((True, [''s'', ''p'', ''a.c'']), File (Bytes ''abc'')),
                     ((True, [''s'', ''p.idx'']), File (Shard [''p/a.c'']))])
            \<lparr>successfulPackageIndexes := 2\<rparr>)
   \<and> within (fs_key ''/s/p'') (fs_key ''/s/p/old.c'')
   \<and> is_file [((True, [''s'']), Dir), ((True, [''s'', ''p'']), Dir),
              ((True, [''s'', ''p'', ''old.c'']), File (Bytes ''old'')),
              ((True, [''s'', ''p'', ''a.c'']), File (Bytes ''abc'')),
              ((True, [''s'', ''p.idx'']), File (Shard [''p/a.c'']))]
        (fs_key ''/s/p/old.c'')
   \<and> ''p/old.c'' \<notin> set [''p/a.c'']"
  by code_simp

section \<open>Paths that are not valid UTF-8\<close>

lemma walkFn_invalid:
  assumes "invalid_utf8_file en path e"
  shows "walkFn en n path (einfo e) (ebytes e) st = Inr (NilError, False, st)"
proof -
  from assms obtain i where i: "einfo e = Some i" "IsRegular (Mode i)"
    "\<not> utf8_ValidString path" "\<not> excluded en path (Some i)"
    by (auto simp: invalid_utf8_file_def split: option.splits)
  obtain dir filename where sp: "filepath_Split path = (dir, filename)"
    by fastforce
  with i(4) have "filename = [] \<or> ignored en (Some i) dir filename = None"
    by (simp add: excluded_def)
  with i(1,2,3) sp show ?thesis
    by (auto simp: walkFn_def Let_def)
qed

lemma walk_invalid:
  assumes "invalid_utf8_file en path e"
  shows "walk en n path e st = Inr (Some e, st)"
proof (cases e)
  case (Entry nm fi content ks)
  with assms have fn: "walkFn en n path fi content st = Inr (NilError, False, st)"
    using walkFn_invalid [of en path e n st] by simp
  from assms Entry obtain i where "fi = Some i" "IsRegular (Mode i)"
    by (auto simp: invalid_utf8_file_def split: option.splits)
  then have "case fi of None \<Rightarrow> True | Some i \<Rightarrow> \<not> IsDir i"
    by (simp add: IsRegular_def IsDir_def)
  with fn Entry show ?thesis by simp
qed

lemma walk_same_head:
  assumes "walk en n path t st = Inr (Some t', st')"
  shows "ename t' = ename t \<and> einfo t' = einfo t \<and> ebytes t' = ebytes t"
proof (cases t)
  case (Entry nm fi content ks)
  with assms show ?thesis
    by (auto split: sum.splits if_splits)
qed

lemma invalid_utf8_file_head:
  "einfo t' = einfo t \<Longrightarrow> invalid_utf8_file en p t' = invalid_utf8_file en p t"
  by (simp add: invalid_utf8_file_def)

lemma ename_without [simp]: "ename (without en path t) = ename t"
  by (cases t) simp

lemma walkFn_directory:
  assumes "IsDir i" "\<not> excluded en path (Some i)"
  shows "walkFn en n path (Some i) content st = Inr (NilError, False, st)"
proof -
  obtain dir filename where sp: "filepath_Split path = (dir, filename)"
    by fastforce
  with assms(2) have "filename = [] \<or> ignored en (Some i) dir filename = None"
    by (simp add: excluded_def)
  moreover from assms(1) have "\<not> IsRegular (Mode i)"
    by (simp add: IsDir_def IsRegular_def)
  ultimately show ?thesis using sp
    by (auto simp: walkFn_def Let_def)
qed

lemma walk_without:
  "walk en n path (without en path t) st =
     (case walk en n path t st of
        Inl err \<Rightarrow> Inl err
      | Inr (r, st') \<Rightarrow> Inr (map_option (without en path) r, st'))"
  "walk_kids en n path (without_kids en path ks) st =
     (case walk_kids en n path ks st of
        Inl err \<Rightarrow> Inl err
      | Inr (ks', st') \<Rightarrow> Inr (without_kids en path ks', st'))"
proof (induction en n path t st and en n path ks st rule: walk_walk_kids.induct)
  case (1 en n path nm fi content ks st)
  show ?case
  proof (cases "walkFn en n path fi content st")
    case (Inl err)
    then show ?thesis by simp
  next
    case (Inr b)
    obtain x d st1 where b: "b = (x, d, st1)" by (cases b) auto
    show ?thesis
    proof (cases "d \<or> x = SkipDir \<or> (case fi of None \<Rightarrow> True | Some i \<Rightarrow> \<not> IsDir i)")
      case True
      with Inr b show ?thesis by auto
    next
      case False
      with "1.IH" [OF Inr, of x "(d, st1)" d st1] b have
        "walk_kids en n path (without_kids en path ks) st1 =
           (case walk_kids en n path ks st1 of
              Inl err \<Rightarrow> Inl err
            | Inr (ks', st') \<Rightarrow> Inr (without_kids en path ks', st'))"
        by simp
      with Inr b False show ?thesis
        by (auto split: sum.splits)
    qed
  qed
next
  case (2 en n path st)
  then show ?case by simp
next
  case (3 en n path k ks st)
  let ?p = "filepath_Join [path, ename k]"
  show ?case
  proof (cases "invalid_utf8_file en ?p k")
    case True
    then have wk: "walk en n ?p k st = Inr (Some k, st)"
      by (rule walk_invalid)
    from "3.IH"(2) [OF wk refl] have
      "walk_kids en n path (without_kids en path ks) st =
         (case walk_kids en n path ks st of
            Inl err \<Rightarrow> Inl err
          | Inr (ks', st') \<Rightarrow> Inr (without_kids en path ks', st'))" .
    with True wk show ?thesis
      by (auto split: sum.splits)
  next
    case False
    show ?thesis
    proof (cases "walk en n ?p k st")
      case (Inl err)
      with False "3.IH"(1) show ?thesis by simp
    next
      case (Inr b)
      obtain r st1 where b: "b = (r, st1)" by (cases b) auto
      from "3.IH"(1) Inr b have w1:
        "walk en n ?p (without en ?p k) st = Inr (map_option (without en ?p) r, st1)"
        by simp
      from "3.IH"(2) [OF Inr] b have w2:
        "walk_kids en n path (without_kids en path ks) st1 =
           (case walk_kids en n path ks st1 of
              Inl err \<Rightarrow> Inl err
            | Inr (ks', st') \<Rightarrow> Inr (without_kids en path ks', st'))"
        by simp
      show ?thesis
      proof (cases "walk_kids en n path ks st1")
        case (Inl err)
        with False Inr b w1 w2 show ?thesis by simp
      next
        case ks: (Inr c)
        obtain ks' st2 where c: "c = (ks', st2)" by (cases c) auto
        show ?thesis
        proof (cases r)
          case None
          with False Inr b w1 w2 ks c show ?thesis by simp
        next
          case (Some t')
          with Inr b have "walk en n ?p k st = Inr (Some t', st1)" by simp
          then have head: "ename t' = ename k" "einfo t' = einfo k"
            using walk_same_head by blast+
          from head(2) have "invalid_utf8_file en ?p t' = invalid_utf8_file en ?p k"
            by (rule invalid_utf8_file_head)
          with False head(1) have "\<not> invalid_utf8_file en (filepath_Join [path, ename t']) t'"
            by simp
          with head(1) have "without_kids en path (t' # ks') =
              without en ?p t' # without_kids en path ks'"
            by simp
          with False Inr b w1 w2 ks c Some show ?thesis by simp
        qed
      qed
    qed
  qed
qed

lemma walk_sits:
  "\<forall>r st'. sits en path t p e \<longrightarrow> invalid_utf8_file en p e \<longrightarrow>
      walk en n path t st = Inr (r, st') \<longrightarrow> (\<exists>t'. r = Some t' \<and> sits en path t' p e)"
  "\<forall>ks' st'. sits_kids en path ks p e \<longrightarrow> invalid_utf8_file en p e \<longrightarrow>
      walk_kids en n path ks st = Inr (ks', st') \<longrightarrow> sits_kids en path ks' p e"
proof (induction en n path t st and en n path ks st rule: walk_walk_kids.induct)
  case (1 en n path nm fi content ks st)
  show ?case
  proof (intro allI impI)
    fix r st'
    assume s: "sits en path (Entry nm fi content ks) p e"
      and inv: "invalid_utf8_file en p e"
      and w: "walk en n path (Entry nm fi content ks) st = Inr (r, st')"
    from s consider
      (here) "p = path" "e = Entry nm fi content ks"
      | (inside) i where "fi = Some i" "IsDir i" "\<not> excluded en path fi"
          "sits_kids en path ks p e"
      by (auto split: option.splits)
    then show "\<exists>t'. r = Some t' \<and> sits en path t' p e"
    proof cases
      case here
      with inv have "walk en n path (Entry nm fi content ks) st =
          Inr (Some (Entry nm fi content ks), st)"
        using walk_invalid by blast
      with w have "r = Some (Entry nm fi content ks)" by simp
      with s show ?thesis by blast
    next
      case inside
      then have fn: "walkFn en n path fi content st = Inr (NilError, False, st)"
        using walkFn_directory by blast
      with w inside(1,2) obtain ks' where
        wk: "walk_kids en n path ks st = Inr (ks', st')"
        and r: "r = Some (Entry nm fi content ks')"
        by (auto split: sum.splits)
      from "1.IH" [OF fn refl refl] inside(1,2) have
        "\<forall>ks' st'. sits_kids en path ks p e \<longrightarrow> invalid_utf8_file en p e \<longrightarrow>
           walk_kids en n path ks st = Inr (ks', st') \<longrightarrow> sits_kids en path ks' p e"
        by simp
      with inside(4) inv wk have "sits_kids en path ks' p e" by blast
      with inside(1,2,3) have "sits en path (Entry nm fi content ks') p e" by simp
      with r show ?thesis by blast
    qed
  qed
next
  case (2 en n path st)
  then show ?case by simp
next
  case (3 en n path k ks st)
  let ?p = "filepath_Join [path, ename k]"
  show ?case
  proof (intro allI impI)
    fix ks' st'
    assume s: "sits_kids en path (k # ks) p e"
      and inv: "invalid_utf8_file en p e"
      and w: "walk_kids en n path (k # ks) st = Inr (ks', st')"
    from w obtain k' st1 where wk: "walk en n ?p k st = Inr (k', st1)"
      by (auto split: sum.splits)
    with w obtain ks1 where wks: "walk_kids en n path ks st1 = Inr (ks1, st')"
      and res: "ks' = (case k' of None \<Rightarrow> ks1 | Some t' \<Rightarrow> t' # ks1)"
      by (auto split: sum.splits)
    from s consider (first) "sits en ?p k p e" | (rest) "sits_kids en path ks p e"
      by auto
    then show "sits_kids en path ks' p e"
    proof cases
      case first
      with "3.IH"(1) inv wk obtain t' where t': "k' = Some t'" "sits en ?p t' p e"
        by blast
      from wk t'(1) have "ename t' = ename k"
        using walk_same_head by blast
      with t' res show ?thesis by simp
    next
      case rest
      with "3.IH"(2) [OF wk refl] inv wks have "sits_kids en path ks1 p e" by blast
      with res show ?thesis by (cases k') simp_all
    qed
  qed
qed

lemma indexPackage_without:
  "indexPackage en pkg (without en (filepath_Join [tmpdir en, pkg, pkg]) stage) s =
     (case indexPackage en pkg stage s of
        Inl err \<Rightarrow> Inl err
      | Inr (stage', cp, s') \<Rightarrow>
          Inr (map_option (without en (filepath_Join [tmpdir en, pkg, pkg])) stage', cp, s'))"
  by (simp add: indexPackage_def Let_def walk_without(1) split: sum.splits prod.splits)

lemma indexPackage_sits:
  assumes "sits en (filepath_Join [tmpdir en, pkg, pkg]) stage p e"
    and "invalid_utf8_file en p e"
    and "indexPackage en pkg stage s = Inr (stage', cp, s')"
  shows "\<exists>t'. stage' = Some t' \<and> sits en (filepath_Join [tmpdir en, pkg, pkg]) t' p e"
proof -
  from indexPackage_steps [OF assms(3)] obtain f1 st where
    "walk en (length (filepath_Join [tmpdir en, pkg]) + 1)
       (filepath_Join [tmpdir en, pkg, pkg]) stage
       \<lparr>index = [], store = f1, copied = []\<rparr> = Inr (stage', st)"
    by blast
  with walk_sits(1) assms(1,2) show ?thesis by blast
qed

text \<open>
  Claim C8, as amended. Take a regular file whose path is not a valid UTF-8 string, to
  which the walk comes (every entry above it is a directory for which the filter gives
  no reason) and for which the filter itself gives no reason. The function of the walk
  leaves the index builder and the store as they are and does not remove the file; when
  the indexer completes, the file is still in the staging tree; and the indexer run on
  the tree without such files ends with the same error or with the same copied files and
  the same state of the process, \<open>pkg.idx\<close> included.
\<close>

theorem indexPackage_invalid_utf8:
  assumes "sits en (filepath_Join [tmpdir en, pkg, pkg]) stage p e"
    and "invalid_utf8_file en p e"
  shows "(\<forall>n st. walkFn en n p (einfo e) (ebytes e) st = Inr (NilError, False, st))
     \<and> (\<forall>stage' cp s'. indexPackage en pkg stage s = Inr (stage', cp, s') \<longrightarrow>
          (\<exists>t'. stage' = Some t' \<and> sits en (filepath_Join [tmpdir en, pkg, pkg]) t' p e))
     \<and> indexPackage en pkg (without en (filepath_Join [tmpdir en, pkg, pkg]) stage) s =
         (case indexPackage en pkg stage s of
            Inl err \<Rightarrow> Inl err
          | Inr (stage', cp, s') \<Rightarrow>
              Inr (map_option (without en (filepath_Join [tmpdir en, pkg, pkg])) stage', cp, s'))"
proof (intro conjI allI impI)
  fix n st
  from assms(2) show "walkFn en n p (einfo e) (ebytes e) st = Inr (NilError, False, st)"
    by (rule walkFn_invalid)
next
  fix stage' cp s'
  assume "indexPackage en pkg stage s = Inr (stage', cp, s')"
  with assms show "\<exists>t'. stage' = Some t' \<and> sits en (filepath_Join [tmpdir en, pkg, pkg]) t' p e"
    by (rule indexPackage_sits)
next
  show "indexPackage en pkg (without en (filepath_Join [tmpdir en, pkg, pkg]) stage) s =
         (case indexPackage en pkg stage s of
            Inl err \<Rightarrow> Inl err
          | Inr (stage', cp, s') \<Rightarrow>
              Inr (map_option (without en (filepath_Join [tmpdir en, pkg, pkg])) stage', cp, s'))"
    by (rule indexPackage_without)
qed

theorem indexPackage_invalid_utf8_witness:
  "sits example_env (filepath_Join [tmpdir example_env, ''p'', ''p''])
     (Entry ''p'' (Some \<lparr>Mode = ModeDir, Size = 0\<rparr>) []
        [Entry ''a.c'' (Some \<lparr>Mode = ModeRegular, Size = 3\<rparr>) ''abc'' [],
         Entry [CHR 0xEE] (Some \<lparr>Mode = ModeRegular, Size = 1\<rparr>) ''x'' []])
     (''/t/p/p/'' @ [CHR 0xEE])
     (Entry [CHR 0xEE] (Some \<lparr>Mode = ModeRegular, Size = 1\<rparr>) ''x'' [])
   \<and> invalid_utf8_file example_env (''/t/p/p/'' @ [CHR 0xEE])
       (Entry [CHR 0xEE] (Some \<lparr>Mode = ModeRegular, Size = 1\<rparr>) ''x'' [])
   \<and> indexPackage example_env ''p''
       (Entry ''p'' (Some \<lparr>Mode = ModeDir, Size = 0\<rparr>) []
          [Entry ''a.c'' (Some \<lparr>Mode = ModeRegular, Size = 3\<rparr>) ''abc'' [],
           Entry [CHR 0xEE] (Some \<lparr>Mode = ModeRegular, Size = 1\<rparr>) ''x'' []])
       (state_of []) =
     Inr (Some (Entry ''p'' (Some \<lparr>Mode = ModeDir, Size = 0\<rparr>) []
                  [Entry ''a.c'' (Some \<lparr>Mode = ModeRegular, Size = 3\<rparr>) ''abc'' [],
                   Entry [CHR 0xEE] (Some \<lparr>Mode = ModeRegular, Size = 1\<rparr>) ''x'' []]),
          [''/s/p/a.c''],
          (state_of [((True, [''s'']), Dir), ((True, [''s'', ''p'']), Dir),
                     ((True, [''s'', ''p'', ''a.c'']), File (Bytes ''abc'')),
                     ((True, [''s'', ''p.idx'']), File (Shard [''p/a.c'']))])
            \<lparr>successfulPackageIndexes := 1\<rparr>)
   \<and> indexPackage example_env ''p''
       (without example_env (filepath_Join [tmpdir example_env, ''p'', ''p''])
          (Entry ''p'' (Some \<lparr>Mode = ModeDir, Size = 0\<rparr>) []
             [Entry ''a.c'' (Some \<lparr>Mode = ModeRegular, Size = 3\<rparr>) ''abc'' [],
              Entry [CHR 0xEE] (Some \<lparr>Mode = ModeRegular, Size = 1\<rparr>) ''x'' []]))
       (state_of []) =
     Inr (Some (Entry ''p'' (Some \<lparr>Mode = ModeDir, Size = 0\<rparr>) []
                  [Entry ''a.c'' (Some \<lparr>Mode = ModeRegular, Size = 3\<rparr>) ''abc'' []]),
          [''/s/p/a.c''],
          (state_of [((True, [''s'']), Dir), ((True, [''s'', ''p'']), Dir),
                     ((True, [''s'', ''p'', ''a.c'']), File (Bytes ''abc'')),
                     ((True, [''s'', ''p.idx'']), File (Shard [''p/a.c'']))])
            \<lparr>successfulPackageIndexes := 1\<rparr>)
   \<and> walkFn example_env 6 (''/t/p/p/'' @ [CHR 0xEE])
       (Some \<lparr>Mode = ModeRegular, Size = 1\<rparr>) ''x''
       \<lparr>index = [], store = [], copied = []\<rparr> =
     Inr (NilError, False, \<lparr>index = [], store = [], copied = []\<rparr>)"
proof -
  let ?U = "filepath_Join [tmpdir example_env, ''p'', ''p'']"
  let ?e = "Entry [CHR 0xEE] (Some \<lparr>Mode = ModeRegular, Size = 1\<rparr>) ''x'' []"
  let ?stage = "Entry ''p'' (Some \<lparr>Mode = ModeDir, Size = 0\<rparr>) []
        [Entry ''a.c'' (Some \<lparr>Mode = ModeRegular, Size = 3\<rparr>) ''abc'' [], ?e]"
  let ?pruned = "Entry ''p'' (Some \<lparr>Mode = ModeDir, Size = 0\<rparr>) []
        [Entry ''a.c'' (Some \<lparr>Mode = ModeRegular, Size = 3\<rparr>) ''abc'' []]"
  let ?p = "''/t/p/p/'' @ [CHR 0xEE]"
  let ?s' = "(state_of [((True, [''s'']), Dir), ((True, [''s'', ''p'']), Dir),
                     ((True, [''s'', ''p'', ''a.c'']), File (Bytes ''abc'')),
                     ((True, [''s'', ''p.idx'']), File (Shard [''p/a.c'']))])
            \<lparr>successfulPackageIndexes := 1\<rparr>"
  have s: "sits example_env ?U ?stage ?p ?e" by code_simp
  have i: "invalid_utf8_file example_env ?p ?e" by code_simp
  have ev: "indexPackage example_env ''p'' ?stage (state_of []) =
      Inr (Some ?stage, [''/s/p/a.c''], ?s')"
    by code_simp
  have pr: "map_option (without example_env ?U) (Some ?stage) = Some ?pruned"
    by code_simp
  note t = indexPackage_invalid_utf8 [OF s i, of "state_of []"]
  from t [THEN conjunct2, THEN conjunct2]
  have "indexPackage example_env ''p'' (without example_env ?U ?stage) (state_of []) =
      Inr (Some ?pruned, [''/s/p/a.c''], ?s')"
    unfolding ev by (simp only: sum.case prod.case pr)
  moreover from t [THEN conjunct1]
  have "walkFn example_env 6 ?p (einfo ?e) (ebytes ?e) \<lparr>index = [], store = [], copied = []\<rparr> =
      Inr (NilError, False, \<lparr>index = [], store = [], copied = []\<rparr>)"
    by (elim allE)
  then have "walkFn example_env 6 ?p (Some \<lparr>Mode = ModeRegular, Size = 1\<rparr>) ''x''
      \<lparr>index = [], store = [], copied = []\<rparr> =
      Inr (NilError, False, \<lparr>index = [], store = [], copied = []\<rparr>)"
    by (simp only: entry.sel)
  ultimately show ?thesis using s i ev by (intro conjI)
qed

text \<open>
  The claim as stated fails: a regular file named \<^verbatim>\<open>\xee.o\<close>, whose path is not valid
  UTF-8, is removed from the staging tree when the filter excludes object files.
\<close>

theorem indexPackage_invalid_utf8_counterexample:
  "indexPackage example_env ''p''
     (Entry ''p'' (Some \<lparr>Mode = ModeDir, Size = 0\<rparr>) []
        [Entry [CHR 0xEE, CHR ''.'', CHR ''o''] (Some \<lparr>Mode = ModeRegular, Size = 1\<rparr>) ''y'' []])
     (state_of []) =
   Inr (Some (Entry ''p'' (Some \<lparr>Mode = ModeDir, Size = 0\<rparr>) [] []), [],
        \<lparr>fs = [((True, [''s'']), Dir), ((True, [''s'', ''p.idx'']), File (Shard []))],
         successfulGarbageCollects = 0, successfulMerges = 0,
         successfulPackageIndexes = 1, filesInIndex = 0, rpcs = []\<rparr>)
   \<and> \<not> utf8_ValidString (filepath_Join [filepath_Join [tmpdir example_env, ''p'', ''p''],
                                         [CHR 0xEE, CHR ''.'', CHR ''o'']])"
  by code_simp

end
